theory Spec2Isabelle
  imports Main "HOL-Library.AList" "HOL-Library.Sublist"
begin

section \<open>The parsed document\<close>

text \<open>
  \<^verbatim>\<open>generateXsd\<close> (src/src/XmlToXsdConverter.js, the \<^verbatim>\<open>xsdGenerator\<close> part) consumes the
  result of \<^verbatim>\<open>DOMParser.parseFromString\<close>. Of a DOM node it reads \<^verbatim>\<open>nodeType\<close>,
  \<^verbatim>\<open>tagName\<close>, \<^verbatim>\<open>attributes[i].name\<close>, \<^verbatim>\<open>childNodes\<close> and \<^verbatim>\<open>nodeValue\<close>. A node is an
  element (tag name, attribute name/value pairs, child nodes), a text node (its value), or
  any other kind of node (comment, processing instruction, ...).

  Strings are lists of 8-bit characters, read as the code units U+0000 .. U+00FF.
\<close>

datatype node =
    Element string "(string \<times> string) list" "node list"
  | Text string
  | Other

text \<open>
  Of the document the code reads \<^verbatim>\<open>xmlDoc.querySelector("parsererror")\<close> (null, or a
  node of which only \<^verbatim>\<open>textContent\<close> is used) and \<^verbatim>\<open>xmlDoc.documentElement\<close> (null, or
  the root node). The parser is not part of the converter: it is a parameter of the model.
\<close>

record xml_document =
  querySelector_parsererror :: "string option"
  documentElement :: "node option"

section \<open>Strings of the JavaScript runtime\<close>

text \<open>
  \<^verbatim>\<open>String.prototype.trim\<close> removes white space and line terminators at both ends; in the
  range of the model these are TAB, LF, VT, FF, CR, SPACE and NBSP.
\<close>

definition is_js_whitespace :: "char \<Rightarrow> bool" where
  "is_js_whitespace c \<longleftrightarrow>
     c \<in> set [CHR 0x09, CHR 0x0A, CHR 0x0B, CHR 0x0C, CHR 0x0D, CHR 0x20, CHR 0xA0]"

definition trim :: "string \<Rightarrow> string" where
  "trim s = rev (dropWhile is_js_whitespace (rev (dropWhile is_js_whitespace s)))"

text \<open>\<^verbatim>\<open>s.split("\n")\<close>: the pieces between line feeds; the empty string gives one empty piece.\<close>

fun split_newline :: "string \<Rightarrow> string list" where
  "split_newline [] = [[]]"
| "split_newline (c # cs) =
     (if c = CHR 0x0A then [] # split_newline cs
      else (case split_newline cs of
              [] \<Rightarrow> [[c]]
            | l # ls \<Rightarrow> (c # l) # ls))"

text \<open>
  \<^verbatim>\<open>xs[i] || d\<close> for an array of strings: an index out of range reads \<^verbatim>\<open>undefined\<close>, and
  \<^verbatim>\<open>undefined\<close> and the empty string are both falsy.
\<close>

definition index_or :: "string list \<Rightarrow> nat \<Rightarrow> string \<Rightarrow> string" where
  "index_or xs i d = (if i < length xs \<and> xs ! i \<noteq> [] then xs ! i else d)"

text \<open>
  \<^verbatim>\<open>s.replace(pat, rep)\<close> with a string pattern replaces the first occurrence of
  \<^verbatim>\<open>pat\<close>. The dollar patterns of the replacement text are not modelled: the replacement
  the converter passes is built from a tag name, and an XML name has no dollar sign.
\<close>

fun js_replace :: "string \<Rightarrow> string \<Rightarrow> string \<Rightarrow> string" where
  "js_replace [] pat rep = (if pat = [] then rep else [])"
| "js_replace (c # cs) pat rep =
     (if prefix pat (c # cs) then rep @ drop (length pat) (c # cs)
      else c # js_replace cs pat rep)"

text \<open>\<^verbatim>\<open>s.includes(t)\<close>: \<^verbatim>\<open>t\<close> occurs in \<^verbatim>\<open>s\<close> as a contiguous run.\<close>

definition str_includes :: "string \<Rightarrow> string \<Rightarrow> bool" where
  "str_includes s t \<longleftrightarrow> sublist t s"

section \<open>The accumulation maps\<close>

text \<open>
  A JavaScript \<^verbatim>\<open>Set\<close> iterates in insertion order and \<^verbatim>\<open>add\<close> of a member changes
  nothing: a list without repetition, new members at the end. A JavaScript \<^verbatim>\<open>Map\<close>
  iterates in the order of first insertion of its keys and \<^verbatim>\<open>set\<close> on a present key
  keeps its place: an association list, with \<^const>\<open>AList.update\<close> for \<^verbatim>\<open>set\<close>,
  \<^const>\<open>map_of\<close> for \<^verbatim>\<open>get\<close> and \<^const>\<open>AList.map_entry\<close> for a mutation of the object
  stored under a key.
\<close>

definition set_add :: "'a \<Rightarrow> 'a list \<Rightarrow> 'a list" where
  "set_add x xs = (if x \<in> set xs then xs else xs @ [x])"

definition new_Set :: "'a list \<Rightarrow> 'a list" where
  "new_Set xs = fold set_add xs []"

definition map_has :: "('k \<times> 'v) list \<Rightarrow> 'k \<Rightarrow> bool" where
  "map_has m k \<longleftrightarrow> map_of m k \<noteq> None"

record element_info =
  attributes :: "string list"
  children :: "string list"
  hasTextContent :: bool

record analyzer_state =
  elementInfo :: "(string \<times> element_info) list"
  elementOrder :: "(string \<times> string list) list"

definition empty_state :: analyzer_state where
  "empty_state = \<lparr>elementInfo = [], elementOrder = []\<rparr>"

section \<open>The traversal: processNode\<close>

text \<open>Each mutation of the maps is one function of the state.\<close>

definition set_elementInfo :: "string \<Rightarrow> analyzer_state \<Rightarrow> analyzer_state" where
  "set_elementInfo elementName st =
     st\<lparr>elementInfo := AList.update elementName
          \<lparr>attributes = [], children = [], hasTextContent = False\<rparr> (elementInfo st)\<rparr>"

definition set_elementOrder :: "string \<Rightarrow> analyzer_state \<Rightarrow> analyzer_state" where
  "set_elementOrder elementName st =
     st\<lparr>elementOrder := AList.update elementName [] (elementOrder st)\<rparr>"

definition add_attribute :: "string \<Rightarrow> string \<Rightarrow> analyzer_state \<Rightarrow> analyzer_state" where
  "add_attribute elementName name st =
     st\<lparr>elementInfo := AList.map_entry elementName
          (\<lambda>info. info\<lparr>attributes := set_add name (attributes info)\<rparr>) (elementInfo st)\<rparr>"

definition add_child :: "string \<Rightarrow> string \<Rightarrow> analyzer_state \<Rightarrow> analyzer_state" where
  "add_child elementName childName st =
     st\<lparr>elementInfo := AList.map_entry elementName
          (\<lambda>info. info\<lparr>children := set_add childName (children info)\<rparr>) (elementInfo st)\<rparr>"

definition push_order :: "string \<Rightarrow> string \<Rightarrow> analyzer_state \<Rightarrow> analyzer_state" where
  "push_order elementName childName st =
     st\<lparr>elementOrder := AList.map_entry elementName
          (\<lambda>order. order @ [childName]) (elementOrder st)\<rparr>"

definition set_hasTextContent :: "string \<Rightarrow> analyzer_state \<Rightarrow> analyzer_state" where
  "set_hasTextContent elementName st =
     st\<lparr>elementInfo := AList.map_entry elementName
          (\<lambda>info. info\<lparr>hasTextContent := True\<rparr>) (elementInfo st)\<rparr>"

text \<open>
  \<^verbatim>\<open>elementOrder.get(elementName)\<close>. Both maps receive a key in the same \<^verbatim>\<open>if\<close>
  (lines 500-507), so the lookup finds an array wherever the loop over the children
  performs it (lemma \<open>reachable_get_order\<close> below); the model reads the empty array in the
  case that never happens.
\<close>

definition get_order :: "analyzer_state \<Rightarrow> string \<Rightarrow> string list" where
  "get_order st elementName =
     (case map_of (elementOrder st) elementName of Some order \<Rightarrow> order | None \<Rightarrow> [])"

text \<open>Lines 500-507: the record and the order array are created on the first visit of a tag.\<close>

definition ensure_record :: "string \<Rightarrow> analyzer_state \<Rightarrow> analyzer_state" where
  "ensure_record elementName st =
     (if \<not> map_has (elementInfo st) elementName
      then set_elementOrder elementName (set_elementInfo elementName st)
      else st)"

text \<open>Lines 515-519: the loop over \<^verbatim>\<open>node.attributes\<close>.\<close>

definition add_attributes ::
  "string \<Rightarrow> (string \<times> string) list \<Rightarrow> analyzer_state \<Rightarrow> analyzer_state" where
  "add_attributes elementName attrs st =
     fold (\<lambda>attr. add_attribute elementName (fst attr)) attrs st"

text \<open>
  Lines 531-539: the capture of the child order. \<open>processed\<close> is the local set
  \<^verbatim>\<open>childrenProcessedInThisNode\<close>; the result is the new state and the new local set.
\<close>

definition capture_order ::
  "string \<Rightarrow> string \<Rightarrow> string list \<Rightarrow> analyzer_state \<Rightarrow> analyzer_state \<times> string list" where
  "capture_order elementName childName processed st =
     (if get_order st elementName = [] \<or> childName \<notin> set (get_order st elementName) then
        if childName \<notin> set processed \<and> get_order st elementName = []
        then (push_order elementName childName st, set_add childName processed)
        else if childName \<notin> set (get_order st elementName)
        then (push_order elementName childName st, processed)
        else (st, processed)
      else (st, processed))"

text \<open>
  \<^verbatim>\<open>processNode(node, parentName)\<close> and the body of its \<^verbatim>\<open>childNodes.forEach\<close>, which
  carries the tag of the node being visited and the local set. \<^verbatim>\<open>info\<close> and \<^verbatim>\<open>order\<close>
  are references to the objects stored under \<^verbatim>\<open>elementName\<close>; the objects are created
  once per key and never replaced, so the model reaches them through the key. The guard
  \<^verbatim>\<open>if (node.attributes)\<close> holds of every element. The local \<^verbatim>\<open>hasChildElements\<close> only
  feeds the two empty branches of lines 548-552 and is left out.
\<close>

fun processNode :: "node \<Rightarrow> string option \<Rightarrow> analyzer_state \<Rightarrow> analyzer_state"
and forEach_childNodes ::
  "string \<Rightarrow> node list \<Rightarrow> string list \<Rightarrow> analyzer_state \<Rightarrow> analyzer_state"
where
  "processNode (Text nodeValue) parentName st =
     (case parentName of
        None \<Rightarrow> st
      | Some p \<Rightarrow>
          if trim nodeValue \<noteq> [] \<and> p \<noteq> [] \<and> map_has (elementInfo st) p
          then set_hasTextContent p st else st)"
| "processNode Other parentName st = st"
| "processNode (Element elementName attrs childNodes) parentName st =
     forEach_childNodes elementName childNodes []
       (add_attributes elementName attrs (ensure_record elementName st))"
| "forEach_childNodes elementName [] processed st = st"
| "forEach_childNodes elementName (Element childName attrs childNodes # rest) processed st =
     forEach_childNodes elementName rest
       (snd (capture_order elementName childName processed (add_child elementName childName st)))
       (processNode (Element childName attrs childNodes) (Some elementName)
          (fst (capture_order elementName childName processed
                  (add_child elementName childName st))))"
| "forEach_childNodes elementName (Text nodeValue # rest) processed st =
     forEach_childNodes elementName rest processed
       (if trim nodeValue \<noteq> [] then set_hasTextContent elementName st else st)"
| "forEach_childNodes elementName (Other # rest) processed st =
     forEach_childNodes elementName rest processed st"

section \<open>The emitter\<close>

text \<open>
  The schema text is built by appending to \<^verbatim>\<open>xsdString\<close>; each function below takes the
  text so far and returns the text after the statements it models.
\<close>

text \<open>Lines 558-565: the preamble up to the heading of the first section.\<close>

definition xsd_preamble :: string where
  \<open>xsd_preamble =
     ''<?xml version="1.0" encoding="UTF-8"?>\<newline>'' @
     ''<xs:schema xmlns:xs="http://www.w3.org/2001/XMLSchema"\<newline>'' @
     ''           targetNamespace="http://example.com/generatedSchema"\<newline>'' @
     ''           xmlns:tns="http://example.com/generatedSchema"\<newline>'' @
     ''           elementFormDefault="qualified">\<newline>\<newline>'' @
     ''  <!-- Global Element Declarations -->\<newline>''\<close>

text \<open>Lines 566-579: the body of the loop over \<^verbatim>\<open>elementInfo.keys()\<close>.\<close>

definition declare_global_element :: "analyzer_state \<Rightarrow> string \<Rightarrow> string \<Rightarrow> string" where
  \<open>declare_global_element st elementName xsdString =
     (case map_of (elementInfo st) elementName of
        None \<Rightarrow> xsdString
      | Some info \<Rightarrow>
          (let hasChildren = (length (children info) > 0);
               hasAttributes = (length (attributes info) > 0)
           in if \<not> hasChildren \<and> \<not> hasAttributes \<and> hasTextContent info
              then xsdString @ ''  <xs:element name="'' @ elementName @ ''" type="xs:string"/>\<newline>''
              else xsdString @ ''  <xs:element name="'' @ elementName @ ''" type="tns:'' @
                     elementName @ ''Type"/>\<newline>''))\<close>

text \<open>Lines 616-618 and 626-628: the two loops over \<^verbatim>\<open>info.attributes\<close>.\<close>

definition extension_attribute :: "string \<Rightarrow> string \<Rightarrow> string" where
  \<open>extension_attribute attrName xsdString =
     xsdString @ ''        <xs:attribute name="'' @ attrName @
       ''" type="xs:string" use="optional"/>\<newline>''\<close>

definition type_attribute :: "string \<Rightarrow> string \<Rightarrow> string" where
  \<open>type_attribute attrName xsdString =
     xsdString @ ''    <xs:attribute name="'' @ attrName @
       ''" type="xs:string" use="optional"/>\<newline>''\<close>

text \<open>Lines 602-604: one child reference.\<close>

definition child_reference :: "string \<Rightarrow> string \<Rightarrow> string" where
  \<open>child_reference childName xsdString =
     xsdString @ ''      <xs:element ref="tns:'' @ childName @
       ''" minOccurs="0" maxOccurs="unbounded"/>\<newline>''\<close>

text \<open>Lines 625-630: the attribute declarations and the closing tag of a type.\<close>

definition close_complex_type :: "element_info \<Rightarrow> string \<Rightarrow> string" where
  \<open>close_complex_type info xsdString =
     fold type_attribute (attributes info) xsdString @ ''  </xs:complexType>\<newline>\<newline>''\<close>

text \<open>
  Lines 585-632: the body of the loop over \<^verbatim>\<open>elementInfo.entries()\<close>. The lookup
  \<^verbatim>\<open>elementOrder.get(elementName) || [...info.children]\<close> falls back to the set of children
  only on \<^verbatim>\<open>undefined\<close>: an array, even an empty one, is truthy.
\<close>

definition define_complex_type ::
  "analyzer_state \<Rightarrow> string \<times> element_info \<Rightarrow> string \<Rightarrow> string" where
  \<open>define_complex_type st entry xsdString =
     (let elementName = fst entry;
          info = snd entry;
          hasChildren = (length (children info) > 0);
          hasAttributes = (length (attributes info) > 0)
      in if hasChildren \<or> hasAttributes \<or>
            (\<not> hasTextContent info \<and> \<not> hasChildren \<and> \<not> hasAttributes)
         then
           (let isMixed = (hasTextContent info \<and> hasChildren);
                opened = xsdString @ ''  <xs:complexType name="'' @ elementName @ ''Type"'' @
                           (if isMixed then '' mixed="true"'' else []) @ ''>\<newline>''
            in if hasChildren then
                 (let childrenOrder =
                        (case map_of (elementOrder st) elementName of
                           Some order \<Rightarrow> order
                         | None \<Rightarrow> children info);
                      allChildren = new_Set (childrenOrder @ children info)
                  in close_complex_type info
                       (fold child_reference allChildren (opened @ ''    <xs:sequence>\<newline>'') @
                          ''    </xs:sequence>\<newline>''))
               else if \<not> hasChildren \<and> \<not> hasTextContent info then
                 close_complex_type info (opened @ ''    <xs:sequence minOccurs="0"/>\<newline>'')
               else if hasTextContent info \<and> \<not> hasChildren \<and> hasAttributes then
                 fold extension_attribute (attributes info)
                   (js_replace opened
                      ('' name="'' @ elementName @ ''Type"'' @
                         (if isMixed then '' mixed="true"'' else []) @ ''>'')
                      ('' name="'' @ elementName @ ''Type">'') @
                    ''    <xs:simpleContent>\<newline>'' @
                    ''      <xs:extension base="xs:string">\<newline>'') @
                 ''      </xs:extension>\<newline>'' @
                 ''    </xs:simpleContent>\<newline>'' @
                 ''  </xs:complexType>\<newline>\<newline>''
               else close_complex_type info opened)
         else xsdString)\<close>

text \<open>Lines 558-636: the whole emission.\<close>

definition emit_xsd :: "analyzer_state \<Rightarrow> string" where
  \<open>emit_xsd st =
     fold (define_complex_type st) (elementInfo st)
       (fold (declare_global_element st) (map fst (elementInfo st)) xsd_preamble @
          ''\<newline>'' @ ''  <!-- Complex Type Definitions -->\<newline>'') @
     ''</xs:schema>\<newline>''\<close>

section \<open>The entry point: generateXsd\<close>

text \<open>
  Both failures are \<^verbatim>\<open>throw new Error(message)\<close>. \<^verbatim>\<open>console.error\<close> is the only effect
  outside the call: the console is a list of the entries written so far, threaded
  through the call.
\<close>

datatype js_error = Error string

datatype console_entry = ConsoleError string string

definition parse_error_message :: "string \<Rightarrow> string" where
  \<open>parse_error_message textContent =
     ''Invalid XML: '' @ index_or (split_newline textContent) 1 ''Parsing failed.''\<close>

definition no_root_message :: string where
  \<open>no_root_message = ''Invalid XML: No root element found.''\<close>

definition generateXsd ::
  "(string \<Rightarrow> xml_document) \<Rightarrow> string \<Rightarrow> console_entry list
     \<Rightarrow> console_entry list \<times> (js_error + string)" where
  \<open>generateXsd parseFromString xmlString console =
     (let xmlDoc = parseFromString xmlString
      in case querySelector_parsererror xmlDoc of
           Some textContent \<Rightarrow>
             (console @ [ConsoleError ''XML Parsing Error:'' textContent],
              Inl (Error (parse_error_message textContent)))
         | None \<Rightarrow>
             (case documentElement xmlDoc of
                None \<Rightarrow> (console, Inl (Error no_root_message))
              | Some rootElement \<Rightarrow>
                  (console, Inr (emit_xsd (processNode rootElement None empty_state)))))\<close>

section \<open>The traversal, mutation by mutation\<close>

text \<open>
  The same traversal, returning the list of the states that follow each single mutation of
  the maps, in program order. The state it ends in is the state \<^const>\<open>processNode\<close>
  returns (lemma \<open>processNode_trace_last\<close>).
\<close>

definition ensure_record_trace :: "string \<Rightarrow> analyzer_state \<Rightarrow> analyzer_state list" where
  "ensure_record_trace elementName st =
     (if \<not> map_has (elementInfo st) elementName
      then [set_elementInfo elementName st,
            set_elementOrder elementName (set_elementInfo elementName st)]
      else [])"

fun add_attributes_trace ::
  "string \<Rightarrow> (string \<times> string) list \<Rightarrow> analyzer_state \<Rightarrow> analyzer_state list" where
  "add_attributes_trace elementName [] st = []"
| "add_attributes_trace elementName (attr # attrs) st =
     add_attribute elementName (fst attr) st #
     add_attributes_trace elementName attrs (add_attribute elementName (fst attr) st)"

definition capture_order_trace ::
  "string \<Rightarrow> string \<Rightarrow> string list \<Rightarrow> analyzer_state \<Rightarrow> analyzer_state list" where
  "capture_order_trace elementName childName processed st =
     (if get_order st elementName = [] \<or> childName \<notin> set (get_order st elementName) then
        if childName \<notin> set processed \<and> get_order st elementName = []
        then [push_order elementName childName st]
        else if childName \<notin> set (get_order st elementName)
        then [push_order elementName childName st]
        else []
      else [])"

fun processNode_trace :: "node \<Rightarrow> string option \<Rightarrow> analyzer_state \<Rightarrow> analyzer_state list"
and forEach_childNodes_trace ::
  "string \<Rightarrow> node list \<Rightarrow> string list \<Rightarrow> analyzer_state \<Rightarrow> analyzer_state list"
where
  "processNode_trace (Text nodeValue) parentName st =
     (case parentName of
        None \<Rightarrow> []
      | Some p \<Rightarrow>
          if trim nodeValue \<noteq> [] \<and> p \<noteq> [] \<and> map_has (elementInfo st) p
          then [set_hasTextContent p st] else [])"
| "processNode_trace Other parentName st = []"
| "processNode_trace (Element elementName attrs childNodes) parentName st =
     ensure_record_trace elementName st @
     add_attributes_trace elementName attrs (ensure_record elementName st) @
     forEach_childNodes_trace elementName childNodes []
       (add_attributes elementName attrs (ensure_record elementName st))"
| "forEach_childNodes_trace elementName [] processed st = []"
| "forEach_childNodes_trace elementName (Element childName attrs childNodes # rest) processed st =
     add_child elementName childName st #
     capture_order_trace elementName childName processed (add_child elementName childName st) @
     processNode_trace (Element childName attrs childNodes) (Some elementName)
       (fst (capture_order elementName childName processed
               (add_child elementName childName st))) @
     forEach_childNodes_trace elementName rest
       (snd (capture_order elementName childName processed (add_child elementName childName st)))
       (processNode (Element childName attrs childNodes) (Some elementName)
          (fst (capture_order elementName childName processed
                  (add_child elementName childName st))))"
| "forEach_childNodes_trace elementName (Text nodeValue # rest) processed st =
     (if trim nodeValue \<noteq> [] then [set_hasTextContent elementName st] else []) @
     forEach_childNodes_trace elementName rest processed
       (if trim nodeValue \<noteq> [] then set_hasTextContent elementName st else st)"
| "forEach_childNodes_trace elementName (Other # rest) processed st =
     forEach_childNodes_trace elementName rest processed st"

section \<open>Properties of the accumulated maps\<close>

text \<open>
  The invariant of the data model: every order array belongs to a record, holds only
  names of the record's set of children, and holds no name twice.
\<close>

definition childOrder_invariant :: "analyzer_state \<Rightarrow> bool" where
  "childOrder_invariant st \<longleftrightarrow>
     (\<forall>entry \<in> set (elementOrder st).
        case map_of (elementInfo st) (fst entry) of
          None \<Rightarrow> False
        | Some info \<Rightarrow> set (snd entry) \<subseteq> set (children info) \<and> distinct (snd entry))"

text \<open>
  What holds of the maps between two visits of a child: the keys are not repeated, the
  sets have no repeated member, and the order array of a tag lists the children of its
  record, in the same order.
\<close>

definition maps_consistent :: "analyzer_state \<Rightarrow> bool" where
  "maps_consistent st \<longleftrightarrow>
     distinct (map fst (elementInfo st)) \<and>
     elementOrder st = map (\<lambda>entry. (fst entry, children (snd entry))) (elementInfo st) \<and>
     (\<forall>entry \<in> set (elementInfo st).
        distinct (attributes (snd entry)) \<and> distinct (children (snd entry)))"

text \<open>
  The tag names of the elements of a tree in document order (a node before its children,
  the children from first to last), and the order of first encounter of a list of names.
\<close>

fun tag_names :: "node \<Rightarrow> string list" where
  "tag_names (Element elementName attrs childNodes) =
     elementName # concat (map tag_names childNodes)"
| "tag_names (Text nodeValue) = []"
| "tag_names Other = []"

primrec first_encounter :: "'a list \<Rightarrow> 'a list" where
  "first_encounter [] = []"
| "first_encounter (x # xs) = x # filter (\<lambda>y. y \<noteq> x) (first_encounter xs)"

section \<open>The schema document as the decision table describes it\<close>

text \<open>
  The shapes of section 4.2 of the specification, written per tag from its words: the
  declaration of the global element, and the type definition chosen by the flags of the
  record. They are compared with the emitter in \<open>emit_xsd_table\<close>.
\<close>

definition table_attribute :: "string \<Rightarrow> string" where
  \<open>table_attribute attrName =
     ''<xs:attribute name="'' @ attrName @ ''" type="xs:string" use="optional"/>\<newline>''\<close>

definition table_child_reference :: "string \<Rightarrow> string" where
  \<open>table_child_reference childName =
     ''      <xs:element ref="tns:'' @ childName @
       ''" minOccurs="0" maxOccurs="unbounded"/>\<newline>''\<close>

definition table_global_element :: "string \<times> element_info \<Rightarrow> string" where
  \<open>table_global_element entry =
     (if hasTextContent (snd entry) \<and> attributes (snd entry) = [] \<and> children (snd entry) = []
      then ''  <xs:element name="'' @ fst entry @ ''" type="xs:string"/>\<newline>''
      else ''  <xs:element name="'' @ fst entry @ ''" type="tns:'' @ fst entry @
             ''Type"/>\<newline>'')\<close>

definition table_type_definition :: "string \<times> element_info \<Rightarrow> string" where
  \<open>table_type_definition entry =
     (if children (snd entry) \<noteq> [] then
        ''  <xs:complexType name="'' @ fst entry @ ''Type"'' @
        (if hasTextContent (snd entry) then '' mixed="true"'' else []) @ ''>\<newline>'' @
        ''    <xs:sequence>\<newline>'' @
        concat (map table_child_reference (children (snd entry))) @
        ''    </xs:sequence>\<newline>'' @
        concat (map (\<lambda>a. ''    '' @ table_attribute a) (attributes (snd entry))) @
        ''  </xs:complexType>\<newline>\<newline>''
      else if \<not> hasTextContent (snd entry) then
        ''  <xs:complexType name="'' @ fst entry @ ''Type">\<newline>'' @
        ''    <xs:sequence minOccurs="0"/>\<newline>'' @
        concat (map (\<lambda>a. ''    '' @ table_attribute a) (attributes (snd entry))) @
        ''  </xs:complexType>\<newline>\<newline>''
      else if attributes (snd entry) \<noteq> [] then
        ''  <xs:complexType name="'' @ fst entry @ ''Type">\<newline>'' @
        ''    <xs:simpleContent>\<newline>'' @
        ''      <xs:extension base="xs:string">\<newline>'' @
        concat (map (\<lambda>a. ''        '' @ table_attribute a) (attributes (snd entry))) @
        ''      </xs:extension>\<newline>'' @
        ''    </xs:simpleContent>\<newline>'' @
        ''  </xs:complexType>\<newline>\<newline>''
      else [])\<close>

section \<open>What the document shows of a tag\<close>

text \<open>
  Read off the tree, in document order: the tags of the element children of the elements
  with a given tag, and the attribute names of the elements with a given tag. The records
  are compared with them in \<open>children_first_encounter\<close> and \<open>attributes_first_encounter\<close>.
\<close>

fun child_tags_of :: "string \<Rightarrow> node \<Rightarrow> string list" where
  "child_tags_of tag (Element elementName attrs childNodes) =
     concat (map (\<lambda>childNode.
        (case childNode of
           Element childName _ _ \<Rightarrow> if elementName = tag then [childName] else []
         | _ \<Rightarrow> []) @ child_tags_of tag childNode) childNodes)"
| "child_tags_of tag (Text nodeValue) = []"
| "child_tags_of tag Other = []"

fun attribute_names_of :: "string \<Rightarrow> node \<Rightarrow> string list" where
  "attribute_names_of tag (Element elementName attrs childNodes) =
     (if elementName = tag then map fst attrs else []) @
     concat (map (attribute_names_of tag) childNodes)"
| "attribute_names_of tag (Text nodeValue) = []"
| "attribute_names_of tag Other = []"

text \<open>The set of children and the set of attributes stored under a tag, empty without a record.\<close>

definition children_of :: "analyzer_state \<Rightarrow> string \<Rightarrow> string list" where
  "children_of st tag = (case map_of (elementInfo st) tag of None \<Rightarrow> [] | Some info \<Rightarrow> children info)"

definition attributes_of :: "analyzer_state \<Rightarrow> string \<Rightarrow> string list" where
  "attributes_of st tag = (case map_of (elementInfo st) tag of None \<Rightarrow> [] | Some info \<Rightarrow> attributes info)"

section \<open>The schema as the document determines it\<close>

text \<open>
  The record of a tag as section 3 of the specification describes it, read off the tree
  with no accumulation map: the attribute names and the child tags of the elements with
  the tag, each in order of first encounter, and whether one of these elements holds a
  text node that is not blank. The records of a document are those of its tags in order
  of first encounter, and its schema is the text the decision table gives for them. They
  are compared with the converter in \<open>analysis_records_of_document\<close> and
  \<open>emit_xsd_schema_of_document\<close>.
\<close>

fun text_directly_in :: "string \<Rightarrow> node \<Rightarrow> bool" where
  "text_directly_in tag (Element elementName attrs childNodes) =
     ((elementName = tag \<and>
       list_ex (\<lambda>childNode. case childNode of Text nodeValue \<Rightarrow> trim nodeValue \<noteq> [] | _ \<Rightarrow> False)
         childNodes) \<or>
      list_ex (text_directly_in tag) childNodes)"
| "text_directly_in tag (Text nodeValue) = False"
| "text_directly_in tag Other = False"

definition record_of_document :: "node \<Rightarrow> string \<Rightarrow> element_info" where
  "record_of_document rootElement tag =
     \<lparr>attributes = first_encounter (attribute_names_of tag rootElement),
      children = first_encounter (child_tags_of tag rootElement),
      hasTextContent = text_directly_in tag rootElement\<rparr>"

definition records_of_document :: "node \<Rightarrow> (string \<times> element_info) list" where
  "records_of_document rootElement =
     map (\<lambda>tag. (tag, record_of_document rootElement tag))
       (first_encounter (tag_names rootElement))"

definition schema_of_document :: "node \<Rightarrow> string" where
  \<open>schema_of_document rootElement =
     ''<?xml version="1.0" encoding="UTF-8"?>\<newline>'' @
     ''<xs:schema xmlns:xs="http://www.w3.org/2001/XMLSchema"\<newline>'' @
     ''           targetNamespace="http://example.com/generatedSchema"\<newline>'' @
     ''           xmlns:tns="http://example.com/generatedSchema"\<newline>'' @
     ''           elementFormDefault="qualified">\<newline>\<newline>'' @
     ''  <!-- Global Element Declarations -->\<newline>'' @
     concat (map table_global_element (records_of_document rootElement)) @
     ''\<newline>'' @
     ''  <!-- Complex Type Definitions -->\<newline>'' @
     concat (map table_type_definition (records_of_document rootElement)) @
     ''</xs:schema>\<newline>''\<close>

text \<open>The text flag stored under a tag, false without a record.\<close>

definition has_text_of :: "analyzer_state \<Rightarrow> string \<Rightarrow> bool" where
  "has_text_of st tag =
     (case map_of (elementInfo st) tag of None \<Rightarrow> False | Some info \<Rightarrow> hasTextContent info)"

section \<open>Documents of the test suite\<close>

text \<open>The parse trees of inputs of src/xsdGenerator.test.js, used to run the model.\<close>

definition list_document :: node where
  "list_document =
     Element ''list'' [] [Element ''value'' [] [Text ''A''], Element ''value'' [] [Text ''B'']]"

definition message_document :: node where
  "message_document = Element ''message'' [] [Text ''Hello World'']"

definition measurement_document :: node where
  "measurement_document = Element ''measurement'' [(''unit'', ''cm'')] [Text ''150'']"

definition config_document :: node where
  "config_document = Element ''config'' [(''active'', ''false'')] []"

definition item_document :: node where
  "item_document = Element ''root'' [] [Element ''item'' [] [Text ''Data'']]"

section \<open>Sets, lines of text, appended text\<close>

lemma set_set_add: "set (set_add x xs) = insert x (set xs)"
  by (auto simp: set_add_def)

lemma distinct_set_add: "distinct xs \<Longrightarrow> distinct (set_add x xs)"
  by (simp add: set_add_def)

lemma set_first_encounter: "set (first_encounter xs) = set xs"
  by (induction xs) auto

lemma distinct_first_encounter: "distinct (first_encounter xs)"
  by (induction xs) (auto simp: set_first_encounter)

lemma first_encounter_distinct: "distinct xs \<Longrightarrow> first_encounter xs = xs"
proof (induction xs)
  case Nil
  then show ?case by simp
next
  case (Cons x xs)
  then have "filter (\<lambda>y. y \<noteq> x) xs = xs"
    by (auto intro: filter_True)
  with Cons show ?case by simp
qed

lemma fold_set_add:
  "fold set_add xs acc = acc @ filter (\<lambda>y. y \<notin> set acc) (first_encounter xs)"
proof (induction xs arbitrary: acc)
  case Nil
  then show ?case by simp
next
  case (Cons x xs)
  show ?case
  proof (cases "x \<in> set acc")
    case True
    then have "filter (\<lambda>y. y \<notin> set acc) (filter (\<lambda>y. y \<noteq> x) (first_encounter xs)) =
               filter (\<lambda>y. y \<notin> set acc) (first_encounter xs)"
      by (auto intro: filter_cong)
    with True Cons show ?thesis by (simp add: set_add_def)
  next
    case False
    have "filter (\<lambda>y. y \<notin> set (acc @ [x])) (first_encounter xs) =
          filter (\<lambda>y. y \<notin> set acc) (filter (\<lambda>y. y \<noteq> x) (first_encounter xs))"
      by (auto intro: filter_cong)
    with False Cons show ?thesis by (simp add: set_add_def)
  qed
qed

lemma new_Set_first_encounter: "new_Set xs = first_encounter xs"
  by (simp add: new_Set_def fold_set_add)

lemma new_Set_twice: "distinct xs \<Longrightarrow> new_Set (xs @ xs) = xs"
proof -
  assume d: "distinct xs"
  have "filter (\<lambda>y. y \<notin> set xs) (first_encounter xs) = []"
    by (simp add: filter_empty_conv set_first_encounter)
  then show ?thesis
    using d by (simp add: new_Set_def fold_set_add first_encounter_distinct)
qed

lemma js_replace_same: "js_replace s pat pat = s"
proof (induction s)
  case Nil
  then show ?case by simp
next
  case (Cons c cs)
  then show ?case by (auto simp: prefix_def)
qed

lemma fold_appender:
  assumes "\<And>a x. f a x = x @ g a"
  shows "fold f as x = x @ concat (map g as)"
  using assms by (induction as arbitrary: x) simp_all

lemma split_newline_nonempty: "split_newline t \<noteq> []"
  by (induction t) (auto split: list.splits)

lemma split_newline_decomp:
  "split_newline t = l # ls \<Longrightarrow>
     CHR 0x0A \<notin> set l \<and>
     (ls = [] \<and> t = l \<or> (\<exists>rest. t = l @ CHR 0x0A # rest \<and> ls = split_newline rest))"
proof (induction t arbitrary: l ls)
  case Nil
  then show ?case by simp
next
  case (Cons c cs)
  show ?case
  proof (cases "c = CHR 0x0A")
    case True
    with Cons.prems show ?thesis by auto
  next
    case False
    obtain l' ls' where s: "split_newline cs = l' # ls'"
      using split_newline_nonempty[of cs] by (cases "split_newline cs") auto
    from Cons.IH[OF s] s Cons.prems False show ?thesis
      by auto
  qed
qed

lemma split_newline_line:
  "CHR 0x0A \<notin> set l \<Longrightarrow> split_newline (l @ CHR 0x0A # rest) = l # split_newline rest"
  by (induction l) auto

lemma split_newline_single: "CHR 0x0A \<notin> set l \<Longrightarrow> split_newline l = [l]"
  by (induction l) auto

section \<open>The failures of the entry point\<close>

lemma parse_error_message_second_line:
  assumes "CHR 0x0A \<notin> set first" and "CHR 0x0A \<notin> set second" and "second \<noteq> []"
    and "rest = [] \<or> hd rest = CHR 0x0A"
  shows "parse_error_message (first @ CHR 0x0A # second @ rest) = ''Invalid XML: '' @ second"
proof -
  have "\<exists>ls. split_newline (second @ rest) = second # ls"
  proof (cases rest)
    case Nil
    with assms show ?thesis by (simp add: split_newline_single)
  next
    case (Cons r rs)
    with assms have "rest = CHR 0x0A # rs" by simp
    with assms show ?thesis by (simp add: split_newline_line)
  qed
  then obtain ls where "split_newline (second @ rest) = second # ls" ..
  with assms show ?thesis
    by (simp add: parse_error_message_def index_or_def split_newline_line)
qed

lemma parse_error_message_one_line:
  assumes "CHR 0x0A \<notin> set textContent"
  shows "parse_error_message textContent = ''Invalid XML: Parsing failed.''"
  using assms by (simp add: parse_error_message_def index_or_def split_newline_single)

lemma parse_error_message_empty_second_line:
  assumes "CHR 0x0A \<notin> set first" and "rest = [] \<or> hd rest = CHR 0x0A"
  shows "parse_error_message (first @ CHR 0x0A # rest) = ''Invalid XML: Parsing failed.''"
proof -
  have "\<exists>ls. split_newline rest = [] # ls"
    using assms(2) by (cases rest) auto
  then obtain ls where "split_newline rest = [] # ls" ..
  with assms show ?thesis
    by (simp add: parse_error_message_def index_or_def split_newline_line)
qed

lemma parse_error_message_cases:
  "parse_error_message t = ''Invalid XML: Parsing failed.'' \<or>
   (\<exists>first second rest. t = first @ CHR 0x0A # second @ rest \<and> CHR 0x0A \<notin> set first \<and>
      CHR 0x0A \<notin> set second \<and> second \<noteq> [] \<and> (rest = [] \<or> hd rest = CHR 0x0A) \<and>
      parse_error_message t = ''Invalid XML: '' @ second)"
proof -
  obtain l ls where s: "split_newline t = l # ls"
    using split_newline_nonempty[of t] by (cases "split_newline t") auto
  from split_newline_decomp[OF s] have l: "CHR 0x0A \<notin> set l"
    and d: "ls = [] \<and> t = l \<or> (\<exists>rest. t = l @ CHR 0x0A # rest \<and> ls = split_newline rest)"
    by auto
  from d show ?thesis
  proof
    assume "ls = [] \<and> t = l"
    with l show ?thesis by (simp add: parse_error_message_one_line)
  next
    assume "\<exists>rest. t = l @ CHR 0x0A # rest \<and> ls = split_newline rest"
    then obtain r where t: "t = l @ CHR 0x0A # r" and ls: "ls = split_newline r" by blast
    obtain m ms where s2: "split_newline r = m # ms"
      using split_newline_nonempty[of r] by (cases "split_newline r") auto
    from split_newline_decomp[OF s2] have m: "CHR 0x0A \<notin> set m"
      and d2: "ms = [] \<and> r = m \<or> (\<exists>rest. r = m @ CHR 0x0A # rest \<and> ms = split_newline rest)"
      by auto
    from d2 obtain rest where r: "r = m @ rest" and rest: "rest = [] \<or> hd rest = CHR 0x0A"
      by auto
    show ?thesis
    proof (cases "m = []")
      case True
      with t r l rest show ?thesis
        by (simp add: parse_error_message_empty_second_line)
    next
      case False
      with parse_error_message_second_line[OF l m False rest] t r l m rest
      show ?thesis by blast
    qed
  qed
qed

text \<open>
  Claim C2, as the code has it. When the parser reports an error, \<^verbatim>\<open>generateXsd\<close> writes
  the parser's node to the console and fails with the message \<^verbatim>\<open>Invalid XML: \<close> followed by
  the second line of the parser's text, when that text has a second line and the line is not
  empty; the message then includes that line. When the parser's text is a single line, or
  its second line is empty, the message is the fixed \<^verbatim>\<open>Invalid XML: Parsing failed.\<close>
\<close>

theorem generateXsd_parse_error_message:
  assumes "querySelector_parsererror (parseFromString xmlString) = Some textContent"
  shows "\<exists>message.
     generateXsd parseFromString xmlString console =
       (console @ [ConsoleError ''XML Parsing Error:'' textContent], Inl (Error message)) \<and>
     (\<forall>first second rest.
        textContent = first @ CHR 0x0A # second @ rest \<and> CHR 0x0A \<notin> set first \<and>
        CHR 0x0A \<notin> set second \<and> second \<noteq> [] \<and> (rest = [] \<or> hd rest = CHR 0x0A)
        \<longrightarrow> message = ''Invalid XML: '' @ second \<and> str_includes message second) \<and>
     (CHR 0x0A \<notin> set textContent \<longrightarrow> message = ''Invalid XML: Parsing failed.'') \<and>
     (\<forall>first rest.
        textContent = first @ CHR 0x0A # rest \<and> CHR 0x0A \<notin> set first \<and>
        (rest = [] \<or> hd rest = CHR 0x0A)
        \<longrightarrow> message = ''Invalid XML: Parsing failed.'')"
proof -
  have g: "generateXsd parseFromString xmlString console =
       (console @ [ConsoleError ''XML Parsing Error:'' textContent],
        Inl (Error (parse_error_message textContent)))"
    using assms by (simp add: generateXsd_def)
  have a: "\<forall>first second rest.
        textContent = first @ CHR 0x0A # second @ rest \<and> CHR 0x0A \<notin> set first \<and>
        CHR 0x0A \<notin> set second \<and> second \<noteq> [] \<and> (rest = [] \<or> hd rest = CHR 0x0A)
        \<longrightarrow> parse_error_message textContent = ''Invalid XML: '' @ second \<and>
            str_includes (parse_error_message textContent) second"
  proof (intro allI impI)
    fix first second rest
    assume h: "textContent = first @ CHR 0x0A # second @ rest \<and> CHR 0x0A \<notin> set first \<and>
        CHR 0x0A \<notin> set second \<and> second \<noteq> [] \<and> (rest = [] \<or> hd rest = CHR 0x0A)"
    then have m: "parse_error_message textContent = ''Invalid XML: '' @ second"
      using parse_error_message_second_line[of first second rest] by simp
    have "sublist second (''Invalid XML: '' @ second @ [])"
      by (rule sublist_appendI)
    with m show "parse_error_message textContent = ''Invalid XML: '' @ second \<and>
            str_includes (parse_error_message textContent) second"
      by (simp add: str_includes_def)
  qed
  have b: "CHR 0x0A \<notin> set textContent \<longrightarrow>
        parse_error_message textContent = ''Invalid XML: Parsing failed.''"
    by (simp add: parse_error_message_one_line)
  have c: "\<forall>first rest.
        textContent = first @ CHR 0x0A # rest \<and> CHR 0x0A \<notin> set first \<and>
        (rest = [] \<or> hd rest = CHR 0x0A)
        \<longrightarrow> parse_error_message textContent = ''Invalid XML: Parsing failed.''"
    using parse_error_message_empty_second_line by blast
  from g a b c show ?thesis by blast
qed

text \<open>The parser error of the test suite: its second line is the detail of the message.\<close>

theorem generateXsd_parse_error_message_witness:
  "generateXsd
     (\<lambda>xmlString. \<lparr>querySelector_parsererror = Some ''Simulated error\<newline>Details here'',
                     documentElement = None\<rparr>)
     ''<parsererror>Simulated error\<newline>Details here</parsererror>'' [] =
   ([ConsoleError ''XML Parsing Error:'' ''Simulated error\<newline>Details here''],
    Inl (Error ''Invalid XML: Details here''))"
proof -
  let ?p = "\<lambda>xmlString::string. \<lparr>querySelector_parsererror = Some ''Simulated error\<newline>Details here'',
                     documentElement = None\<rparr>"
  let ?x = "''<parsererror>Simulated error\<newline>Details here</parsererror>''"
  have h: "querySelector_parsererror (?p ?x) = Some ''Simulated error\<newline>Details here''"
    by simp
  from generateXsd_parse_error_message
         [of ?p ?x "''Simulated error\<newline>Details here''" "[]"] h
  obtain message where g: "generateXsd ?p ?x [] =
       ([] @ [ConsoleError ''XML Parsing Error:'' ''Simulated error\<newline>Details here''],
        Inl (Error message))"
    and a: "\<forall>first second rest.
        ''Simulated error\<newline>Details here'' = first @ CHR 0x0A # second @ rest \<and>
        CHR 0x0A \<notin> set first \<and> CHR 0x0A \<notin> set second \<and> second \<noteq> [] \<and>
        (rest = [] \<or> hd rest = CHR 0x0A)
        \<longrightarrow> message = ''Invalid XML: '' @ second \<and> str_includes message second"
    by blast
  from a[rule_format, of "''Simulated error''" "''Details here''" "[]"]
  have "message = ''Invalid XML: Details here''" by simp
  with g show ?thesis by simp
qed

text \<open>
  Claim C2 as stated fails on a diagnostic of one line. The parser stand-in of the test
  suite answers the input \<^verbatim>\<open><parsererror>Mismatched tag</parsererror>\<close> with an error node
  whose text is \<^verbatim>\<open>Mismatched tag\<close>; the message of the failure has none of it.
\<close>

theorem generateXsd_parse_error_one_line_counterexample:
  "querySelector_parsererror
     \<lparr>querySelector_parsererror = Some ''Mismatched tag'', documentElement = None\<rparr> =
     Some ''Mismatched tag'' \<and>
   generateXsd
     (\<lambda>xmlString. \<lparr>querySelector_parsererror = Some ''Mismatched tag'', documentElement = None\<rparr>)
     ''<parsererror>Mismatched tag</parsererror>'' [] =
   ([ConsoleError ''XML Parsing Error:'' ''Mismatched tag''],
    Inl (Error ''Invalid XML: Parsing failed.'')) \<and>
   \<not> str_includes ''Invalid XML: Parsing failed.'' ''Mismatched tag''"
  by (simp add: generateXsd_def parse_error_message_def index_or_def str_includes_def
      sublist_Cons_right)

text \<open>
  Claim C3, as the code has it. When the parser reports no error and the document has no
  root element (the empty, the blank and the comment-only input), \<^verbatim>\<open>generateXsd\<close> fails
  with the message \<^verbatim>\<open>Invalid XML: No root element found.\<close> and leaves the console as it
  was. The message is not the fixed message of a parse error, and a parse error carries
  the same message exactly when the second line of the parser's own text is that very
  sentence.
\<close>

theorem generateXsd_no_root_element:
  assumes "querySelector_parsererror (parseFromString xmlString) = None"
    and "documentElement (parseFromString xmlString) = None"
  shows "generateXsd parseFromString xmlString console =
           (console, Inl (Error ''Invalid XML: No root element found.'')) \<and>
         ''Invalid XML: No root element found.'' \<noteq> ''Invalid XML: Parsing failed.'' \<and>
         (\<forall>textContent.
            parse_error_message textContent = ''Invalid XML: No root element found.'' \<longleftrightarrow>
            (\<exists>first rest. textContent = first @ CHR 0x0A # ''No root element found.'' @ rest \<and>
               CHR 0x0A \<notin> set first \<and> (rest = [] \<or> hd rest = CHR 0x0A)))"
proof -
  have g: "generateXsd parseFromString xmlString console =
           (console, Inl (Error ''Invalid XML: No root element found.''))"
    using assms by (simp add: generateXsd_def no_root_message_def)
  have d: "''Invalid XML: No root element found.'' \<noteq> ''Invalid XML: Parsing failed.''"
    by simp
  have c: "\<forall>textContent.
            parse_error_message textContent = ''Invalid XML: No root element found.'' \<longleftrightarrow>
            (\<exists>first rest. textContent = first @ CHR 0x0A # ''No root element found.'' @ rest \<and>
               CHR 0x0A \<notin> set first \<and> (rest = [] \<or> hd rest = CHR 0x0A))"
  proof (intro allI iffI)
    fix t
    assume e: "parse_error_message t = ''Invalid XML: No root element found.''"
    then have "parse_error_message t \<noteq> ''Invalid XML: Parsing failed.''"
      by simp
    with parse_error_message_cases[of t]
    have "\<exists>first second rest. t = first @ CHR 0x0A # second @ rest \<and> CHR 0x0A \<notin> set first \<and>
      CHR 0x0A \<notin> set second \<and> second \<noteq> [] \<and> (rest = [] \<or> hd rest = CHR 0x0A) \<and>
      parse_error_message t = ''Invalid XML: '' @ second"
      by blast
    then obtain first second rest where t: "t = first @ CHR 0x0A # second @ rest"
      and f: "CHR 0x0A \<notin> set first" and r: "rest = [] \<or> hd rest = CHR 0x0A"
      and m: "parse_error_message t = ''Invalid XML: '' @ second"
      by blast
    from m e have "second = ''No root element found.''" by simp
    with t f r show "\<exists>first rest. t = first @ CHR 0x0A # ''No root element found.'' @ rest \<and>
               CHR 0x0A \<notin> set first \<and> (rest = [] \<or> hd rest = CHR 0x0A)"
      by blast
  next
    fix t
    assume "\<exists>first rest. t = first @ CHR 0x0A # ''No root element found.'' @ rest \<and>
               CHR 0x0A \<notin> set first \<and> (rest = [] \<or> hd rest = CHR 0x0A)"
    then obtain first rest where t: "t = first @ CHR 0x0A # ''No root element found.'' @ rest"
      and f: "CHR 0x0A \<notin> set first" and r: "rest = [] \<or> hd rest = CHR 0x0A"
      by blast
    have s: "CHR 0x0A \<notin> set ''No root element found.''"
      by simp
    have n: "''No root element found.'' \<noteq> []"
      by simp
    from parse_error_message_second_line[OF f s n r] t
    show "parse_error_message t = ''Invalid XML: No root element found.''"
      by simp
  qed
  show ?thesis
    by (intro conjI g d c)
qed

text \<open>The empty input, for a parser that returns a document with no root and no error.\<close>

theorem generateXsd_no_root_element_witness:
  "generateXsd (\<lambda>xmlString. \<lparr>querySelector_parsererror = None, documentElement = None\<rparr>)
     [] [] = ([], Inl (Error ''Invalid XML: No root element found.''))"
proof -
  let ?p = "\<lambda>xmlString::string. \<lparr>querySelector_parsererror = None, documentElement = None\<rparr>"
  have a: "querySelector_parsererror (?p []) = None" by simp
  have b: "documentElement (?p []) = None" by simp
  from generateXsd_no_root_element[of ?p "[]" "[]"] a b
  show ?thesis by blast
qed

text \<open>
  Claim C3 as stated fails: the message of the missing root is also the message of a parse
  error. The parser stand-in of the test suite answers the empty input with a document
  that has no root and no error, and the input
  \<^verbatim>\<open><parsererror>E\<close>, line feed, \<^verbatim>\<open>No root element found.</parsererror>\<close> with an error node
  holding these two lines; both calls fail with the same message.
\<close>

theorem generateXsd_no_root_message_counterexample:
  "querySelector_parsererror
     ((\<lambda>xmlString. if xmlString = []
         then \<lparr>querySelector_parsererror = None, documentElement = None\<rparr>
         else \<lparr>querySelector_parsererror = Some ''E\<newline>No root element found.'',
                documentElement = None\<rparr>) []) = None \<and>
   documentElement
     ((\<lambda>xmlString. if xmlString = []
         then \<lparr>querySelector_parsererror = None, documentElement = None\<rparr>
         else \<lparr>querySelector_parsererror = Some ''E\<newline>No root element found.'',
                documentElement = None\<rparr>) []) = None \<and>
   snd (generateXsd
     (\<lambda>xmlString. if xmlString = []
         then \<lparr>querySelector_parsererror = None, documentElement = None\<rparr>
         else \<lparr>querySelector_parsererror = Some ''E\<newline>No root element found.'',
                documentElement = None\<rparr>) [] []) =
     Inl (Error ''Invalid XML: No root element found.'') \<and>
   generateXsd
     (\<lambda>xmlString. if xmlString = []
         then \<lparr>querySelector_parsererror = None, documentElement = None\<rparr>
         else \<lparr>querySelector_parsererror = Some ''E\<newline>No root element found.'',
                documentElement = None\<rparr>)
     ''<parsererror>E\<newline>No root element found.</parsererror>'' [] =
     ([ConsoleError ''XML Parsing Error:'' ''E\<newline>No root element found.''],
      Inl (Error ''Invalid XML: No root element found.''))"
  by (simp add: generateXsd_def parse_error_message_def index_or_def no_root_message_def)

text \<open>
  Claim C10. When the parse result has a parser-error node, \<^verbatim>\<open>generateXsd\<close> fails on the
  parse-error path whatever the root element of the document is, also when there is none:
  the outcome does not depend on \<^verbatim>\<open>documentElement\<close>, and it is never the outcome of the
  missing-root path.
\<close>

theorem generateXsd_parse_error_first:
  assumes "querySelector_parsererror (parseFromString xmlString) = Some textContent"
  shows "generateXsd parseFromString xmlString console =
           (console @ [ConsoleError ''XML Parsing Error:'' textContent],
            Inl (Error (parse_error_message textContent))) \<and>
         (\<forall>root. generateXsd (\<lambda>s. (parseFromString s)\<lparr>documentElement := root\<rparr>) xmlString console =
                  generateXsd parseFromString xmlString console) \<and>
         generateXsd parseFromString xmlString console \<noteq> (console, Inl (Error no_root_message))"
  using assms by (simp add: generateXsd_def)

text \<open>A document with a parser error and no root element: both failure conditions hold.\<close>

theorem generateXsd_parse_error_first_witness:
  "generateXsd
     (\<lambda>xmlString. \<lparr>querySelector_parsererror = Some ''Parsing error\<newline>Mismatched closing tag b'',
                     documentElement = None\<rparr>) ''<a></b>'' [] =
   ([ConsoleError ''XML Parsing Error:'' ''Parsing error\<newline>Mismatched closing tag b''],
    Inl (Error ''Invalid XML: Mismatched closing tag b''))"
  using generateXsd_parse_error_first
    [of "\<lambda>xmlString. \<lparr>querySelector_parsererror = Some ''Parsing error\<newline>Mismatched closing tag b'',
                     documentElement = None\<rparr>" "''<a></b>''"
        "''Parsing error\<newline>Mismatched closing tag b''" "[]"]
  by (simp add: parse_error_message_def index_or_def)

section \<open>The maps between two visits\<close>

lemma map_entry_cong_value:
  "(\<And>v. map_of xs k = Some v \<Longrightarrow> f v = g v) \<Longrightarrow> AList.map_entry k f xs = AList.map_entry k g xs"
  by (induction xs) auto

lemma map_entry_ident:
  "(\<And>v. map_of xs k = Some v \<Longrightarrow> f v = v) \<Longrightarrow> AList.map_entry k f xs = xs"
  by (induction xs) auto

lemma map_fst_map_entry: "map fst (AList.map_entry k f xs) = map fst xs"
  by (induction xs) auto

lemma map_fst_update: "map fst (AList.update k v xs) = set_add k (map fst xs)"
  by (simp add: update_keys set_add_def)

lemma map_values_map_entry:
  "(\<And>v. g (f v) = f' (g v)) \<Longrightarrow>
   map (\<lambda>e. (fst e, g (snd e))) (AList.map_entry k f xs) =
   AList.map_entry k f' (map (\<lambda>e. (fst e, g (snd e))) xs)"
  by (induction xs) auto

lemma map_values_map_entry_same:
  "(\<And>v. g (f v) = g v) \<Longrightarrow>
   map (\<lambda>e. (fst e, g (snd e))) (AList.map_entry k f xs) = map (\<lambda>e. (fst e, g (snd e))) xs"
  by (induction xs) auto

lemma map_values_update:
  "map (\<lambda>e. (fst e, g (snd e))) (AList.update k v xs) =
   AList.update k (g v) (map (\<lambda>e. (fst e, g (snd e))) xs)"
  by (induction xs) auto

lemma set_map_entry:
  "e \<in> set (AList.map_entry k f xs) \<Longrightarrow> e \<in> set xs \<or> (\<exists>v. (k, v) \<in> set xs \<and> e = (k, f v))"
  by (induction xs) (auto split: if_splits)

lemma set_update:
  "e \<in> set (AList.update k v xs) \<Longrightarrow> e \<in> set xs \<or> e = (k, v)"
  by (induction xs) (auto split: if_splits)

lemma get_order_add_child: "get_order (add_child n c st) m = get_order st m"
  by (simp add: get_order_def add_child_def)

lemma capture_order_add_child:
  "fst (capture_order n c processed (add_child n c st)) =
     st\<lparr>elementInfo := AList.map_entry n
          (\<lambda>info. info\<lparr>children := set_add c (children info)\<rparr>) (elementInfo st),
        elementOrder := AList.map_entry n (set_add c) (elementOrder st)\<rparr>"
proof (cases "c \<in> set (get_order st n)")
  case True
  then have "AList.map_entry n (set_add c) (elementOrder st) = elementOrder st"
    by (intro map_entry_ident) (auto simp: get_order_def set_add_def)
  moreover from True have "get_order st n \<noteq> []"
    by auto
  ultimately show ?thesis
    using True unfolding capture_order_def get_order_add_child
    by (simp add: add_child_def)
next
  case False
  then have "AList.map_entry n (\<lambda>order. order @ [c]) (elementOrder st) =
             AList.map_entry n (set_add c) (elementOrder st)"
    by (intro map_entry_cong_value) (auto simp: get_order_def set_add_def)
  with False show ?thesis
    unfolding capture_order_def get_order_add_child
    by (simp add: add_child_def push_order_def)
qed

lemma maps_consistent_empty: "maps_consistent empty_state"
  by (simp add: maps_consistent_def empty_state_def)

lemma maps_consistent_ensure_record:
  "maps_consistent st \<Longrightarrow> maps_consistent (ensure_record n st)"
  unfolding maps_consistent_def ensure_record_def set_elementInfo_def set_elementOrder_def
  by (auto simp: distinct_update map_values_update dest!: set_update)

lemma maps_consistent_add_attribute:
  "maps_consistent st \<Longrightarrow> maps_consistent (add_attribute n a st)"
  unfolding maps_consistent_def add_attribute_def
  by (auto simp: distinct_map_entry map_values_map_entry_same distinct_set_add
           dest!: set_map_entry)


lemma maps_consistent_set_hasTextContent:
  "maps_consistent st \<Longrightarrow> maps_consistent (set_hasTextContent n st)"
  unfolding maps_consistent_def set_hasTextContent_def
  by (auto simp: distinct_map_entry map_values_map_entry_same dest!: set_map_entry)

lemma maps_consistent_add_attributes:
  "maps_consistent st \<Longrightarrow> maps_consistent (add_attributes n attrs st)"
  unfolding add_attributes_def
  by (induction attrs arbitrary: st) (simp_all add: maps_consistent_add_attribute)

lemma maps_consistent_capture_order:
  assumes "maps_consistent st"
  shows "maps_consistent (fst (capture_order n c processed (add_child n c st)))"
proof -
  have "map (\<lambda>e. (fst e, children (snd e)))
          (AList.map_entry n (\<lambda>info. info\<lparr>children := set_add c (children info)\<rparr>)
             (elementInfo st)) =
        AList.map_entry n (set_add c) (map (\<lambda>e. (fst e, children (snd e))) (elementInfo st))"
    by (rule map_values_map_entry) simp
  with assms show ?thesis
    unfolding capture_order_add_child maps_consistent_def
    by (auto simp: distinct_map_entry distinct_set_add dest!: set_map_entry)
qed

lemma maps_consistent_processNode:
  "maps_consistent st \<Longrightarrow> maps_consistent (processNode node parentName st)"
  and maps_consistent_forEach_childNodes:
  "maps_consistent st \<Longrightarrow> maps_consistent (forEach_childNodes n nodes processed st)"
proof (induction node parentName st and n nodes processed st
       rule: processNode_forEach_childNodes.induct)
  case (1 nodeValue parentName st)
  then show ?case
    by (simp add: maps_consistent_set_hasTextContent split: option.splits)
next
  case (2 parentName st)
  then show ?case by simp
next
  case (3 elementName attrs childNodes parentName st)
  then show ?case
    by (simp add: maps_consistent_add_attributes maps_consistent_ensure_record)
next
  case (4 elementName processed st)
  then show ?case by simp
next
  case (5 elementName childName attrs childNodes rest processed st)
  then show ?case
    by (simp add: maps_consistent_capture_order del: processNode.simps)
next
  case (6 elementName nodeValue rest processed st)
  then show ?case
    by (simp add: maps_consistent_set_hasTextContent)
next
  case (7 elementName rest processed st)
  then show ?case by simp
qed

text \<open>
  The loop over the children of an element runs on consistent maps that hold the record of
  the element; at the lookup of the order array, right after the child is added to the
  set of children, the array is there.
\<close>

lemma reachable_get_order:
  assumes "maps_consistent st" and "map_has (elementInfo st) elementName"
  shows "map_of (elementOrder (add_child elementName childName st)) elementName \<noteq> None"
proof -
  from assms(2) obtain info where i: "map_of (elementInfo st) elementName = Some info"
    by (auto simp: map_has_def)
  have "elementOrder st = map (\<lambda>(k, v). (k, children v)) (elementInfo st)"
    using assms(1) by (simp add: maps_consistent_def case_prod_beta)
  then have "map_of (elementOrder st) elementName =
             map_option children (map_of (elementInfo st) elementName)"
    by (simp add: map_of_map)
  with i show ?thesis
    by (simp add: add_child_def)
qed

subsection \<open>The keys of the map are the tags in order of first encounter\<close>

lemma keys_ensure_record:
  "map fst (elementInfo (ensure_record n st)) = set_add n (map fst (elementInfo st))"
proof (cases "map_has (elementInfo st) n")
  case True
  then have "n \<in> set (map fst (elementInfo st))"
    by (auto simp: map_has_def dest: map_of_SomeD intro: rev_image_eqI)
  with True show ?thesis
    by (simp add: ensure_record_def set_add_def)
next
  case False
  then show ?thesis
    by (simp add: ensure_record_def set_elementInfo_def set_elementOrder_def map_fst_update)
qed

lemma keys_add_attributes:
  "map fst (elementInfo (add_attributes n attrs st)) = map fst (elementInfo st)"
  unfolding add_attributes_def
  by (induction attrs arbitrary: st) (simp_all add: add_attribute_def map_fst_map_entry)

lemma keys_set_hasTextContent:
  "map fst (elementInfo (set_hasTextContent n st)) = map fst (elementInfo st)"
  by (simp add: set_hasTextContent_def map_fst_map_entry)

lemma keys_capture_order:
  "map fst (elementInfo (fst (capture_order n c processed (add_child n c st)))) =
   map fst (elementInfo st)"
  by (simp add: capture_order_add_child map_fst_map_entry)

lemma keys_processNode:
  "map fst (elementInfo (processNode node parentName st)) =
     fold set_add (tag_names node) (map fst (elementInfo st))"
  and keys_forEach_childNodes:
  "map fst (elementInfo (forEach_childNodes n nodes processed st)) =
     fold set_add (concat (map tag_names nodes)) (map fst (elementInfo st))"
proof (induction node parentName st and n nodes processed st
       rule: processNode_forEach_childNodes.induct)
  case (1 nodeValue parentName st)
  then show ?case
    by (simp add: keys_set_hasTextContent split: option.splits)
next
  case (2 parentName st)
  then show ?case by simp
next
  case (3 elementName attrs childNodes parentName st)
  then show ?case
    by (simp add: keys_add_attributes keys_ensure_record)
next
  case (4 elementName processed st)
  then show ?case by simp
next
  case (5 elementName childName attrs childNodes rest processed st)
  then show ?case
    by (simp add: keys_capture_order del: processNode.simps tag_names.simps)
next
  case (6 elementName nodeValue rest processed st)
  then show ?case
    by (simp add: keys_set_hasTextContent)
next
  case (7 elementName rest processed st)
  then show ?case by simp
qed

lemma keys_first_encounter:
  "map fst (elementInfo (processNode rootElement None empty_state)) =
     first_encounter (tag_names rootElement)"
  by (simp add: keys_processNode fold_set_add empty_state_def)

section \<open>The emitter follows the decision table\<close>

lemma fold_child_reference:
  "fold child_reference cs x = x @ concat (map table_child_reference cs)"
  by (rule fold_appender) (simp add: child_reference_def table_child_reference_def)

lemma fold_type_attribute:
  "fold type_attribute as x = x @ concat (map (\<lambda>a. ''    '' @ table_attribute a) as)"
  by (rule fold_appender) (simp add: type_attribute_def table_attribute_def)

lemma fold_extension_attribute:
  "fold extension_attribute as x = x @ concat (map (\<lambda>a. ''        '' @ table_attribute a) as)"
  by (rule fold_appender) (simp add: extension_attribute_def table_attribute_def)

lemma declare_global_element_table:
  "map_of (elementInfo st) (fst entry) = Some (snd entry) \<Longrightarrow>
   declare_global_element st (fst entry) x = x @ table_global_element entry"
  by (auto simp: declare_global_element_def table_global_element_def Let_def)

lemma fold_declare_global_element:
  "(\<And>entry. entry \<in> set entries \<Longrightarrow> map_of (elementInfo st) (fst entry) = Some (snd entry)) \<Longrightarrow>
   fold (declare_global_element st) (map fst entries) x =
     x @ concat (map table_global_element entries)"
  by (induction entries arbitrary: x) (simp_all add: declare_global_element_table)

lemma maps_consistent_lookup:
  "maps_consistent st \<Longrightarrow> entry \<in> set (elementInfo st) \<Longrightarrow>
   map_of (elementInfo st) (fst entry) = Some (snd entry)"
  by (cases entry) (simp add: maps_consistent_def)

lemma maps_consistent_order:
  assumes "maps_consistent st" and "entry \<in> set (elementInfo st)"
  shows "map_of (elementOrder st) (fst entry) = Some (children (snd entry))"
proof -
  have "elementOrder st = map (\<lambda>(k, v). (k, children v)) (elementInfo st)"
    using assms(1) by (simp add: maps_consistent_def case_prod_beta)
  then have "map_of (elementOrder st) (fst entry) =
             map_option children (map_of (elementInfo st) (fst entry))"
    by (simp add: map_of_map)
  with assms show ?thesis
    by (simp add: maps_consistent_lookup)
qed

lemma maps_consistent_distinct:
  "maps_consistent st \<Longrightarrow> entry \<in> set (elementInfo st) \<Longrightarrow>
   distinct (attributes (snd entry)) \<and> distinct (children (snd entry))"
  by (simp add: maps_consistent_def)

lemma define_complex_type_table:
  assumes "maps_consistent st" and "entry \<in> set (elementInfo st)"
  shows "define_complex_type st entry x = x @ table_type_definition entry"
proof -
  have o: "map_of (elementOrder st) (fst entry) = Some (children (snd entry))"
    using assms by (rule maps_consistent_order)
  have d: "distinct (children (snd entry))"
    using assms by (simp add: maps_consistent_distinct)
  show ?thesis
  proof (cases "children (snd entry) = []")
    case False
    then show ?thesis
      by (simp add: define_complex_type_def table_type_definition_def Let_def o
          new_Set_twice[OF d] close_complex_type_def fold_child_reference fold_type_attribute)
  next
    case True
    show ?thesis
    proof (cases "hasTextContent (snd entry)")
      case False
      with True show ?thesis
        by (simp add: define_complex_type_def table_type_definition_def Let_def
            close_complex_type_def fold_type_attribute)
    next
      case t: True
      with True show ?thesis
        by (simp add: define_complex_type_def table_type_definition_def Let_def
            js_replace_same fold_extension_attribute)
    qed
  qed
qed

lemma fold_define_complex_type:
  "maps_consistent st \<Longrightarrow> set entries \<subseteq> set (elementInfo st) \<Longrightarrow>
   fold (define_complex_type st) entries x = x @ concat (map table_type_definition entries)"
  by (induction entries arbitrary: x) (simp_all add: define_complex_type_table)

lemma emit_xsd_table:
  assumes "maps_consistent st"
  shows "emit_xsd st =
     xsd_preamble @
     concat (map table_global_element (elementInfo st)) @
     ''\<newline>  <!-- Complex Type Definitions -->\<newline>'' @
     concat (map table_type_definition (elementInfo st)) @
     ''</xs:schema>\<newline>''"
proof -
  have g: "fold (declare_global_element st) (map fst (elementInfo st)) xsd_preamble =
           xsd_preamble @ concat (map table_global_element (elementInfo st))"
    using assms by (intro fold_declare_global_element maps_consistent_lookup)
  show ?thesis
    unfolding emit_xsd_def g
    using assms by (simp add: fold_define_complex_type)
qed

section \<open>The records and the document\<close>

lemma map_has_keys: "map_has m k \<longleftrightarrow> k \<in> set (map fst m)"
  by (simp add: map_has_def map_of_eq_None_iff)

lemma set_fold_set_add: "set (fold set_add xs acc) = set acc \<union> set xs"
  by (induction xs arbitrary: acc) (auto simp: set_set_add)

lemma map_has_processNode:
  "map_has (elementInfo st) k \<Longrightarrow> map_has (elementInfo (processNode node parentName st)) k"
  by (simp add: map_has_keys keys_processNode set_fold_set_add)

lemma map_has_ensure_record: "map_has (elementInfo (ensure_record n st)) n"
  by (simp add: map_has_keys keys_ensure_record set_set_add)

lemma map_has_add_attributes:
  "map_has (elementInfo (add_attributes n attrs st)) k = map_has (elementInfo st) k"
  by (simp add: map_has_keys keys_add_attributes)

lemma map_has_set_hasTextContent:
  "map_has (elementInfo (set_hasTextContent n st)) k = map_has (elementInfo st) k"
  by (simp add: map_has_keys keys_set_hasTextContent)

lemma map_has_capture_order:
  "map_has (elementInfo (fst (capture_order n c processed (add_child n c st)))) k =
   map_has (elementInfo st) k"
  by (simp add: map_has_keys keys_capture_order)

lemma children_of_empty: "children_of empty_state tag = []"
  by (simp add: children_of_def empty_state_def)

lemma attributes_of_empty: "attributes_of empty_state tag = []"
  by (simp add: attributes_of_def empty_state_def)

lemma children_of_ensure_record: "children_of (ensure_record n st) tag = children_of st tag"
  by (auto simp: children_of_def ensure_record_def set_elementInfo_def set_elementOrder_def
      map_has_def update_conv')

lemma children_of_add_attribute: "children_of (add_attribute n a st) tag = children_of st tag"
  by (auto simp: children_of_def add_attribute_def map_of_map_entry split: option.splits)

lemma children_of_add_attributes: "children_of (add_attributes n attrs st) tag = children_of st tag"
  unfolding add_attributes_def
  by (induction attrs arbitrary: st) (simp_all add: children_of_add_attribute)

lemma children_of_set_hasTextContent:
  "children_of (set_hasTextContent n st) tag = children_of st tag"
  by (auto simp: children_of_def set_hasTextContent_def map_of_map_entry split: option.splits)

lemma children_of_capture_order:
  "map_has (elementInfo st) n \<Longrightarrow>
   children_of (fst (capture_order n c processed (add_child n c st))) tag =
     (if n = tag then set_add c (children_of st tag) else children_of st tag)"
  by (auto simp: children_of_def capture_order_add_child map_of_map_entry map_has_def
      split: option.splits)

lemma children_of_processNode:
  "children_of (processNode node parentName st) tag =
     fold set_add (child_tags_of tag node) (children_of st tag)"
  and children_of_forEach_childNodes:
  "map_has (elementInfo st) n \<Longrightarrow>
   children_of (forEach_childNodes n nodes processed st) tag =
     fold set_add (child_tags_of tag (Element n [] nodes)) (children_of st tag)"
proof (induction node parentName st and n nodes processed st
       rule: processNode_forEach_childNodes.induct)
  case (1 nodeValue parentName st)
  then show ?case
    by (simp add: children_of_set_hasTextContent split: option.splits)
next
  case (2 parentName st)
  then show ?case by simp
next
  case (3 elementName attrs childNodes parentName st)
  then show ?case
    by (simp add: children_of_add_attributes children_of_ensure_record
        map_has_add_attributes map_has_ensure_record)
next
  case (4 elementName processed st)
  then show ?case by simp
next
  case (5 elementName childName attrs childNodes rest processed st)
  let ?s = "fst (capture_order elementName childName processed
                   (add_child elementName childName st))"
  have h: "map_has (elementInfo (processNode (Element childName attrs childNodes)
             (Some elementName) ?s)) elementName"
    using "5.prems" by (simp add: map_has_processNode map_has_capture_order del: processNode.simps)
  show ?case
    using "5.IH"(1) "5.IH"(2)[OF h] "5.prems"
    by (simp add: children_of_capture_order del: processNode.simps)
next
  case (6 elementName nodeValue rest processed st)
  then show ?case
    by (simp add: children_of_set_hasTextContent map_has_set_hasTextContent)
next
  case (7 elementName rest processed st)
  then show ?case by simp
qed

lemma children_first_encounter:
  assumes "entry \<in> set (elementInfo (processNode rootElement None empty_state))"
  shows "children (snd entry) = first_encounter (child_tags_of (fst entry) rootElement)"
proof -
  let ?st = "processNode rootElement None empty_state"
  have "maps_consistent ?st"
    by (simp add: maps_consistent_processNode maps_consistent_empty)
  with assms have "map_of (elementInfo ?st) (fst entry) = Some (snd entry)"
    by (rule maps_consistent_lookup[rotated])
  then have "children (snd entry) = children_of ?st (fst entry)"
    by (simp add: children_of_def)
  also have "\<dots> = first_encounter (child_tags_of (fst entry) rootElement)"
    by (simp add: children_of_processNode fold_set_add children_of_empty)
  finally show ?thesis .
qed

subsection \<open>The set of attributes of a tag\<close>

lemma attributes_of_ensure_record: "attributes_of (ensure_record n st) tag = attributes_of st tag"
  by (auto simp: attributes_of_def ensure_record_def set_elementInfo_def set_elementOrder_def
      map_has_def update_conv')

lemma attributes_of_add_attribute:
  "map_has (elementInfo st) n \<Longrightarrow>
   attributes_of (add_attribute n a st) tag =
     (if n = tag then set_add a (attributes_of st tag) else attributes_of st tag)"
  by (auto simp: attributes_of_def add_attribute_def map_of_map_entry map_has_def
      split: option.splits)

lemma map_has_add_attribute:
  "map_has (elementInfo (add_attribute n a st)) k = map_has (elementInfo st) k"
  by (simp add: map_has_keys add_attribute_def map_fst_map_entry)

lemma attributes_of_add_attributes:
  "map_has (elementInfo st) n \<Longrightarrow>
   attributes_of (add_attributes n attrs st) tag =
     fold set_add (if n = tag then map fst attrs else []) (attributes_of st tag)"
  unfolding add_attributes_def
  by (induction attrs arbitrary: st)
     (simp_all add: attributes_of_add_attribute map_has_add_attribute)

lemma attributes_of_set_hasTextContent:
  "attributes_of (set_hasTextContent n st) tag = attributes_of st tag"
  by (auto simp: attributes_of_def set_hasTextContent_def map_of_map_entry split: option.splits)

lemma attributes_of_capture_order:
  "attributes_of (fst (capture_order n c processed (add_child n c st))) tag = attributes_of st tag"
  by (auto simp: attributes_of_def capture_order_add_child map_of_map_entry
      split: option.splits)

lemma attributes_of_processNode:
  "attributes_of (processNode node parentName st) tag =
     fold set_add (attribute_names_of tag node) (attributes_of st tag)"
  and attributes_of_forEach_childNodes:
  "attributes_of (forEach_childNodes n nodes processed st) tag =
     fold set_add (concat (map (attribute_names_of tag) nodes)) (attributes_of st tag)"
proof (induction node parentName st and n nodes processed st
       rule: processNode_forEach_childNodes.induct)
  case (1 nodeValue parentName st)
  then show ?case
    by (simp add: attributes_of_set_hasTextContent split: option.splits)
next
  case (2 parentName st)
  then show ?case by simp
next
  case (3 elementName attrs childNodes parentName st)
  then show ?case
    by (simp add: attributes_of_add_attributes attributes_of_ensure_record map_has_ensure_record)
next
  case (4 elementName processed st)
  then show ?case by simp
next
  case (5 elementName childName attrs childNodes rest processed st)
  then show ?case
    by (simp add: attributes_of_capture_order del: processNode.simps attribute_names_of.simps)
next
  case (6 elementName nodeValue rest processed st)
  then show ?case
    by (simp add: attributes_of_set_hasTextContent)
next
  case (7 elementName rest processed st)
  then show ?case by simp
qed

lemma attributes_first_encounter:
  assumes "entry \<in> set (elementInfo (processNode rootElement None empty_state))"
  shows "attributes (snd entry) = first_encounter (attribute_names_of (fst entry) rootElement)"
proof -
  let ?st = "processNode rootElement None empty_state"
  have "maps_consistent ?st"
    by (simp add: maps_consistent_processNode maps_consistent_empty)
  with assms have "map_of (elementInfo ?st) (fst entry) = Some (snd entry)"
    by (rule maps_consistent_lookup[rotated])
  then have "attributes (snd entry) = attributes_of ?st (fst entry)"
    by (simp add: attributes_of_def)
  also have "\<dots> = first_encounter (attribute_names_of (fst entry) rootElement)"
    by (simp add: attributes_of_processNode fold_set_add attributes_of_empty)
  finally show ?thesis .
qed

section \<open>The shape emitted for a tag\<close>

text \<open>The definitions that run the traversal on a given tree.\<close>

lemmas analyzer_defs =
  empty_state_def ensure_record_def map_has_def set_elementInfo_def set_elementOrder_def
  add_attributes_def add_attribute_def add_child_def capture_order_def get_order_def
  push_order_def set_add_def set_hasTextContent_def trim_def is_js_whitespace_def

lemma maps_consistent_analysis: "maps_consistent (processNode rootElement None empty_state)"
  by (simp add: maps_consistent_processNode maps_consistent_empty)

lemma emitted_type_definition:
  assumes "maps_consistent st" and "entry \<in> set (elementInfo st)"
  shows "\<exists>before after. emit_xsd st = before @ table_type_definition entry @ after"
proof -
  from assms(2) obtain xs ys where e: "elementInfo st = xs @ entry # ys"
    by (auto dest: split_list)
  have "emit_xsd st =
     (xsd_preamble @ concat (map table_global_element (elementInfo st)) @
      ''\<newline>  <!-- Complex Type Definitions -->\<newline>'' @
      concat (map table_type_definition xs)) @
     table_type_definition entry @
     (concat (map table_type_definition ys) @ ''</xs:schema>\<newline>'')"
    unfolding emit_xsd_table[OF assms(1)] by (simp add: e)
  then show ?thesis by blast
qed

lemma emitted_global_element:
  assumes "maps_consistent st" and "entry \<in> set (elementInfo st)"
  shows "\<exists>before after. emit_xsd st = before @ table_global_element entry @ after"
proof -
  from assms(2) obtain xs ys where e: "elementInfo st = xs @ entry # ys"
    by (auto dest: split_list)
  have "emit_xsd st =
     (xsd_preamble @ concat (map table_global_element xs)) @
     table_global_element entry @
     (concat (map table_global_element ys) @
      ''\<newline>  <!-- Complex Type Definitions -->\<newline>'' @
      concat (map table_type_definition (elementInfo st)) @ ''</xs:schema>\<newline>'')"
    unfolding emit_xsd_table[OF assms(1)] by (simp add: e)
  then show ?thesis by blast
qed

lemma table_child_reference_text:
  \<open>table_child_reference =
     (\<lambda>childName. ''      <xs:element ref="tns:'' @ childName @
        ''" minOccurs="0" maxOccurs="unbounded"/>\<newline>'')\<close>
  by (rule ext) (simp add: table_child_reference_def)

text \<open>
  Claim C1. For a tag of the analysed document whose record has at least one child, the
  loop of the emitter appends one type definition: the opening tag, marked
  \<^verbatim>\<open>mixed="true"\<close> exactly when the record has text, a sequence with one reference per name
  of the order array of the tag, each with \<^verbatim>\<open>minOccurs="0" maxOccurs="unbounded"\<close>, the
  attribute declarations, and the closing tag; this text is part of the emitted schema.
  The order array holds every member of the set of children once, and it is the list of
  the child tags found under the elements with this tag, in order of first encounter in
  the document: a repeated child gives one reference, and a child first seen under a later
  element with this tag comes after the earlier ones.
\<close>

theorem child_references_once_each:
  assumes "st = processNode rootElement None empty_state"
    and "entry \<in> set (elementInfo st)"
    and "children (snd entry) \<noteq> []"
  shows \<open>\<exists>typeDefinition.
     typeDefinition =
       ''  <xs:complexType name="'' @ fst entry @ ''Type"'' @
       (if hasTextContent (snd entry) then '' mixed="true"'' else []) @ ''>\<newline>'' @
       ''    <xs:sequence>\<newline>'' @
       concat (map (\<lambda>childName. ''      <xs:element ref="tns:'' @ childName @
                      ''" minOccurs="0" maxOccurs="unbounded"/>\<newline>'')
                 (get_order st (fst entry))) @
       ''    </xs:sequence>\<newline>'' @
       concat (map (\<lambda>attrName. ''    <xs:attribute name="'' @ attrName @
                      ''" type="xs:string" use="optional"/>\<newline>'')
                 (attributes (snd entry))) @
       ''  </xs:complexType>\<newline>\<newline>'' \<and>
     define_complex_type st entry xsdString = xsdString @ typeDefinition \<and>
     (\<exists>before after. emit_xsd st = before @ typeDefinition @ after) \<and>
     distinct (get_order st (fst entry)) \<and>
     set (get_order st (fst entry)) = set (children (snd entry)) \<and>
     get_order st (fst entry) = first_encounter (child_tags_of (fst entry) rootElement)\<close>
proof -
  have c: "maps_consistent st"
    using assms(1) by (simp add: maps_consistent_analysis)
  have o: "get_order st (fst entry) = children (snd entry)"
    using maps_consistent_order[OF c assms(2)] by (simp add: get_order_def)
  have t: \<open>table_type_definition entry =
       ''  <xs:complexType name="'' @ fst entry @ ''Type"'' @
       (if hasTextContent (snd entry) then '' mixed="true"'' else []) @ ''>\<newline>'' @
       ''    <xs:sequence>\<newline>'' @
       concat (map (\<lambda>childName. ''      <xs:element ref="tns:'' @ childName @
                      ''" minOccurs="0" maxOccurs="unbounded"/>\<newline>'')
                 (get_order st (fst entry))) @
       ''    </xs:sequence>\<newline>'' @
       concat (map (\<lambda>attrName. ''    <xs:attribute name="'' @ attrName @
                      ''" type="xs:string" use="optional"/>\<newline>'')
                 (attributes (snd entry))) @
       ''  </xs:complexType>\<newline>\<newline>''\<close>
    using assms(3)
    by (simp add: table_type_definition_def o table_child_reference_text table_attribute_def)
  have d: "define_complex_type st entry xsdString = xsdString @ table_type_definition entry"
    using c assms(2) by (rule define_complex_type_table)
  have e: "\<exists>before after. emit_xsd st = before @ table_type_definition entry @ after"
    using c assms(2) by (rule emitted_type_definition)
  have f: "distinct (get_order st (fst entry))"
    using maps_consistent_distinct[OF c assms(2)] o by simp
  have g: "get_order st (fst entry) = first_encounter (child_tags_of (fst entry) rootElement)"
    using children_first_encounter[of entry rootElement] assms(1,2) o by simp
  have s: "set (get_order st (fst entry)) = set (children (snd entry))"
    by (simp add: o)
  show ?thesis
    by (rule exI[of _ "table_type_definition entry"]) (intro conjI t d e f s g)
qed

lemma list_document_analysis:
  "processNode list_document None empty_state =
     \<lparr>elementInfo =
        [(''list'', \<lparr>attributes = [], children = [''value''], hasTextContent = False\<rparr>),
         (''value'', \<lparr>attributes = [], children = [], hasTextContent = True\<rparr>)],
      elementOrder = [(''list'', [''value'']), (''value'', [])]\<rparr>"
  by (simp add: list_document_def analyzer_defs)

text \<open>The list with two \<^verbatim>\<open>value\<close> children: one reference.\<close>

theorem child_references_once_each_witness:
  \<open>(''list'', \<lparr>attributes = [], children = [''value''], hasTextContent = False\<rparr>)
     \<in> set (elementInfo (processNode list_document None empty_state)) \<and>
   define_complex_type (processNode list_document None empty_state)
     (''list'', \<lparr>attributes = [], children = [''value''], hasTextContent = False\<rparr>) [] =
     ''  <xs:complexType name="listType">\<newline>'' @
     ''    <xs:sequence>\<newline>'' @
     ''      <xs:element ref="tns:value" minOccurs="0" maxOccurs="unbounded"/>\<newline>'' @
     ''    </xs:sequence>\<newline>'' @
     ''  </xs:complexType>\<newline>\<newline>''\<close>
proof -
  let ?st = "processNode list_document None empty_state"
  let ?entry = "(''list'', \<lparr>attributes = [], children = [''value''], hasTextContent = False\<rparr>)"
  have m: "?entry \<in> set (elementInfo ?st)"
    by (simp add: list_document_analysis)
  have n: "children (snd ?entry) \<noteq> []"
    by simp
  from child_references_once_each[OF refl m n, of "[]"]
  obtain typeDefinition where
    d: \<open>typeDefinition =
       ''  <xs:complexType name="'' @ fst ?entry @ ''Type"'' @
       (if hasTextContent (snd ?entry) then '' mixed="true"'' else []) @ ''>\<newline>'' @
       ''    <xs:sequence>\<newline>'' @
       concat (map (\<lambda>childName. ''      <xs:element ref="tns:'' @ childName @
                      ''" minOccurs="0" maxOccurs="unbounded"/>\<newline>'')
                 (get_order ?st (fst ?entry))) @
       ''    </xs:sequence>\<newline>'' @
       concat (map (\<lambda>attrName. ''    <xs:attribute name="'' @ attrName @
                      ''" type="xs:string" use="optional"/>\<newline>'')
                 (attributes (snd ?entry))) @
       ''  </xs:complexType>\<newline>\<newline>''\<close>
    and e: "define_complex_type ?st ?entry [] = [] @ typeDefinition"
    by blast
  from d have \<open>typeDefinition =
     ''  <xs:complexType name="listType">\<newline>'' @
     ''    <xs:sequence>\<newline>'' @
     ''      <xs:element ref="tns:value" minOccurs="0" maxOccurs="unbounded"/>\<newline>'' @
     ''    </xs:sequence>\<newline>'' @
     ''  </xs:complexType>\<newline>\<newline>''\<close>
    by (simp add: list_document_analysis get_order_def)
  with e m show ?thesis
    by simp
qed

lemma concat_map_without_empty:
  "(\<And>e. e \<in> set xs \<Longrightarrow> \<not> keep e \<Longrightarrow> f e = []) \<Longrightarrow>
   concat (map f (filter keep xs)) = concat (map f xs)"
  by (induction xs) auto

lemma maps_consistent_same_key:
  assumes "maps_consistent st" and "entry \<in> set (elementInfo st)"
    and "other \<in> set (elementInfo st)" and "fst other = fst entry"
  shows "other = entry"
proof -
  have "map_of (elementInfo st) (fst other) = Some (snd other)"
    using assms(1,3) by (rule maps_consistent_lookup)
  moreover have "map_of (elementInfo st) (fst entry) = Some (snd entry)"
    using assms(1,2) by (rule maps_consistent_lookup)
  ultimately show ?thesis
    using assms(4) by (simp add: prod_eq_iff)
qed

lemma message_document_analysis:
  "processNode message_document None empty_state =
     \<lparr>elementInfo =
        [(''message'', \<lparr>attributes = [], children = [], hasTextContent = True\<rparr>)],
      elementOrder = [(''message'', [])]\<rparr>"
  by (simp add: message_document_def analyzer_defs)

lemma measurement_document_analysis:
  "processNode measurement_document None empty_state =
     \<lparr>elementInfo =
        [(''measurement'', \<lparr>attributes = [''unit''], children = [], hasTextContent = True\<rparr>)],
      elementOrder = [(''measurement'', [])]\<rparr>"
  by (simp add: measurement_document_def analyzer_defs)

lemma config_document_analysis:
  "processNode config_document None empty_state =
     \<lparr>elementInfo =
        [(''config'', \<lparr>attributes = [''active''], children = [], hasTextContent = False\<rparr>)],
      elementOrder = [(''config'', [])]\<rparr>"
  by (simp add: config_document_def analyzer_defs)

lemma item_document_analysis:
  "processNode item_document None empty_state =
     \<lparr>elementInfo =
        [(''root'', \<lparr>attributes = [], children = [''item''], hasTextContent = False\<rparr>),
         (''item'', \<lparr>attributes = [], children = [], hasTextContent = True\<rparr>)],
      elementOrder = [(''root'', [''item'']), (''item'', [])]\<rparr>"
  by (simp add: item_document_def analyzer_defs)

text \<open>
  Claim C4. For a tag of the analysed document whose record has text, no attribute and no
  child, the first loop of the emitter appends the global element with the type
  \<^verbatim>\<open>xs:string\<close>, this declaration is part of the emitted schema, the second loop appends
  nothing for the tag, and the type definitions of the schema are those of the other tags.
\<close>

theorem text_only_tag_bare_string:
  assumes "st = processNode rootElement None empty_state"
    and "entry \<in> set (elementInfo st)"
    and "hasTextContent (snd entry)"
    and "attributes (snd entry) = []"
    and "children (snd entry) = []"
  shows \<open>declare_global_element st (fst entry) xsdString =
           xsdString @ ''  <xs:element name="'' @ fst entry @ ''" type="xs:string"/>\<newline>'' \<and>
         (\<exists>before after. emit_xsd st =
            before @ ''  <xs:element name="'' @ fst entry @ ''" type="xs:string"/>\<newline>'' @ after) \<and>
         define_complex_type st entry xsdString = xsdString \<and>
         emit_xsd st =
           xsd_preamble @
           concat (map table_global_element (elementInfo st)) @
           ''\<newline>  <!-- Complex Type Definitions -->\<newline>'' @
           concat (map table_type_definition
                     (filter (\<lambda>other. fst other \<noteq> fst entry) (elementInfo st))) @
           ''</xs:schema>\<newline>''\<close>
proof -
  have c: "maps_consistent st"
    using assms(1) by (simp add: maps_consistent_analysis)
  have g: \<open>table_global_element entry =
           ''  <xs:element name="'' @ fst entry @ ''" type="xs:string"/>\<newline>''\<close>
    using assms(3-5) by (simp add: table_global_element_def)
  have t: "table_type_definition entry = []"
    using assms(3-5) by (simp add: table_type_definition_def)
  have 1: \<open>declare_global_element st (fst entry) xsdString =
           xsdString @ ''  <xs:element name="'' @ fst entry @ ''" type="xs:string"/>\<newline>''\<close>
    using declare_global_element_table[OF maps_consistent_lookup[OF c assms(2)], of xsdString]
    by (simp only: g)
  have 2: \<open>\<exists>before after. emit_xsd st =
            before @ ''  <xs:element name="'' @ fst entry @ ''" type="xs:string"/>\<newline>'' @ after\<close>
    using emitted_global_element[OF c assms(2)] by (simp add: g)
  have 3: "define_complex_type st entry xsdString = xsdString"
    using define_complex_type_table[OF c assms(2), of xsdString] by (simp add: t)
  have "concat (map table_type_definition
                  (filter (\<lambda>other. fst other \<noteq> fst entry) (elementInfo st))) =
        concat (map table_type_definition (elementInfo st))"
  proof (rule concat_map_without_empty)
    fix e
    assume "e \<in> set (elementInfo st)" and "\<not> fst e \<noteq> fst entry"
    then have "e = entry"
      using maps_consistent_same_key[OF c assms(2)] by simp
    with t show "table_type_definition e = []" by simp
  qed
  then have 4: \<open>emit_xsd st =
           xsd_preamble @
           concat (map table_global_element (elementInfo st)) @
           ''\<newline>  <!-- Complex Type Definitions -->\<newline>'' @
           concat (map table_type_definition
                     (filter (\<lambda>other. fst other \<noteq> fst entry) (elementInfo st))) @
           ''</xs:schema>\<newline>''\<close>
    using emit_xsd_table[OF c] by (simp only:)
  show ?thesis
    by (intro conjI 1 2 3 4)
qed

text \<open>The \<^verbatim>\<open>message\<close> element with text only.\<close>

theorem text_only_tag_bare_string_witness:
  \<open>(''message'', \<lparr>attributes = [], children = [], hasTextContent = True\<rparr>)
     \<in> set (elementInfo (processNode message_document None empty_state)) \<and>
   declare_global_element (processNode message_document None empty_state) ''message'' [] =
     ''  <xs:element name="message" type="xs:string"/>\<newline>'' \<and>
   define_complex_type (processNode message_document None empty_state)
     (''message'', \<lparr>attributes = [], children = [], hasTextContent = True\<rparr>) [] = []\<close>
proof -
  let ?st = "processNode message_document None empty_state"
  let ?entry = "(''message'', \<lparr>attributes = [], children = [], hasTextContent = True\<rparr>)"
  have m: "?entry \<in> set (elementInfo ?st)"
    by (simp add: message_document_analysis)
  from text_only_tag_bare_string[OF refl m, of "[]"] m show ?thesis
    by simp
qed

text \<open>
  Claim C5. For a tag of the analysed document whose record has text, no child and at
  least one attribute, the emitter appends a type definition with a \<^verbatim>\<open>simpleContent\<close>
  extension of \<^verbatim>\<open>xs:string\<close> holding one optional string attribute declaration per member
  of the set of attributes; this text is part of the emitted schema. The set has no name
  twice, and it is the list of the attribute names found on the elements with this tag,
  in order of first encounter.
\<close>

theorem text_with_attributes_simple_content:
  assumes "st = processNode rootElement None empty_state"
    and "entry \<in> set (elementInfo st)"
    and "hasTextContent (snd entry)"
    and "children (snd entry) = []"
    and "attributes (snd entry) \<noteq> []"
  shows \<open>\<exists>typeDefinition.
     typeDefinition =
       ''  <xs:complexType name="'' @ fst entry @ ''Type">\<newline>'' @
       ''    <xs:simpleContent>\<newline>'' @
       ''      <xs:extension base="xs:string">\<newline>'' @
       concat (map (\<lambda>attrName. ''        <xs:attribute name="'' @ attrName @
                      ''" type="xs:string" use="optional"/>\<newline>'')
                 (attributes (snd entry))) @
       ''      </xs:extension>\<newline>'' @
       ''    </xs:simpleContent>\<newline>'' @
       ''  </xs:complexType>\<newline>\<newline>'' \<and>
     define_complex_type st entry xsdString = xsdString @ typeDefinition \<and>
     (\<exists>before after. emit_xsd st = before @ typeDefinition @ after) \<and>
     distinct (attributes (snd entry)) \<and>
     attributes (snd entry) = first_encounter (attribute_names_of (fst entry) rootElement)\<close>
proof -
  have c: "maps_consistent st"
    using assms(1) by (simp add: maps_consistent_analysis)
  have t: \<open>table_type_definition entry =
       ''  <xs:complexType name="'' @ fst entry @ ''Type">\<newline>'' @
       ''    <xs:simpleContent>\<newline>'' @
       ''      <xs:extension base="xs:string">\<newline>'' @
       concat (map (\<lambda>attrName. ''        <xs:attribute name="'' @ attrName @
                      ''" type="xs:string" use="optional"/>\<newline>'')
                 (attributes (snd entry))) @
       ''      </xs:extension>\<newline>'' @
       ''    </xs:simpleContent>\<newline>'' @
       ''  </xs:complexType>\<newline>\<newline>''\<close>
    using assms(3-5) by (simp add: table_type_definition_def table_attribute_def)
  have d: "define_complex_type st entry xsdString = xsdString @ table_type_definition entry"
    using c assms(2) by (rule define_complex_type_table)
  have e: "\<exists>before after. emit_xsd st = before @ table_type_definition entry @ after"
    using c assms(2) by (rule emitted_type_definition)
  have f: "distinct (attributes (snd entry))"
    using maps_consistent_distinct[OF c assms(2)] by simp
  have g: "attributes (snd entry) = first_encounter (attribute_names_of (fst entry) rootElement)"
    using attributes_first_encounter[of entry rootElement] assms(1,2) by simp
  show ?thesis
    by (rule exI[of _ "table_type_definition entry"]) (intro conjI t d e f g)
qed

text \<open>The \<^verbatim>\<open>measurement\<close> element with a unit and a value.\<close>

theorem text_with_attributes_simple_content_witness:
  \<open>(''measurement'', \<lparr>attributes = [''unit''], children = [], hasTextContent = True\<rparr>)
     \<in> set (elementInfo (processNode measurement_document None empty_state)) \<and>
   define_complex_type (processNode measurement_document None empty_state)
     (''measurement'', \<lparr>attributes = [''unit''], children = [], hasTextContent = True\<rparr>) [] =
     ''  <xs:complexType name="measurementType">\<newline>'' @
     ''    <xs:simpleContent>\<newline>'' @
     ''      <xs:extension base="xs:string">\<newline>'' @
     ''        <xs:attribute name="unit" type="xs:string" use="optional"/>\<newline>'' @
     ''      </xs:extension>\<newline>'' @
     ''    </xs:simpleContent>\<newline>'' @
     ''  </xs:complexType>\<newline>\<newline>''\<close>
proof -
  let ?st = "processNode measurement_document None empty_state"
  let ?entry = "(''measurement'', \<lparr>attributes = [''unit''], children = [], hasTextContent = True\<rparr>)"
  have m: "?entry \<in> set (elementInfo ?st)"
    by (simp add: measurement_document_analysis)
  from text_with_attributes_simple_content[OF refl m, of "[]"]
  obtain typeDefinition where
    d: \<open>typeDefinition =
       ''  <xs:complexType name="'' @ fst ?entry @ ''Type">\<newline>'' @
       ''    <xs:simpleContent>\<newline>'' @
       ''      <xs:extension base="xs:string">\<newline>'' @
       concat (map (\<lambda>attrName. ''        <xs:attribute name="'' @ attrName @
                      ''" type="xs:string" use="optional"/>\<newline>'')
                 (attributes (snd ?entry))) @
       ''      </xs:extension>\<newline>'' @
       ''    </xs:simpleContent>\<newline>'' @
       ''  </xs:complexType>\<newline>\<newline>''\<close>
    and e: "define_complex_type ?st ?entry [] = [] @ typeDefinition"
    by auto
  from d e m show ?thesis
    by simp
qed

text \<open>
  Claim C6. For a tag of the analysed document whose record has no text and no child, the
  emitter appends a type definition whose content model is the empty
  \<^verbatim>\<open><xs:sequence minOccurs="0"/>\<close>, followed by one attribute declaration per member of the
  set of attributes (none when the set is empty); this text is part of the emitted schema,
  and the global element of the tag refers to this type.
\<close>

theorem empty_tag_empty_content:
  assumes "st = processNode rootElement None empty_state"
    and "entry \<in> set (elementInfo st)"
    and "\<not> hasTextContent (snd entry)"
    and "children (snd entry) = []"
  shows \<open>\<exists>typeDefinition.
     typeDefinition =
       ''  <xs:complexType name="'' @ fst entry @ ''Type">\<newline>'' @
       ''    <xs:sequence minOccurs="0"/>\<newline>'' @
       concat (map (\<lambda>attrName. ''    <xs:attribute name="'' @ attrName @
                      ''" type="xs:string" use="optional"/>\<newline>'')
                 (attributes (snd entry))) @
       ''  </xs:complexType>\<newline>\<newline>'' \<and>
     define_complex_type st entry xsdString = xsdString @ typeDefinition \<and>
     (\<exists>before after. emit_xsd st = before @ typeDefinition @ after) \<and>
     distinct (attributes (snd entry)) \<and>
     declare_global_element st (fst entry) xsdString =
       xsdString @ ''  <xs:element name="'' @ fst entry @ ''" type="tns:'' @ fst entry @
         ''Type"/>\<newline>''\<close>
proof -
  have c: "maps_consistent st"
    using assms(1) by (simp add: maps_consistent_analysis)
  have t: \<open>table_type_definition entry =
       ''  <xs:complexType name="'' @ fst entry @ ''Type">\<newline>'' @
       ''    <xs:sequence minOccurs="0"/>\<newline>'' @
       concat (map (\<lambda>attrName. ''    <xs:attribute name="'' @ attrName @
                      ''" type="xs:string" use="optional"/>\<newline>'')
                 (attributes (snd entry))) @
       ''  </xs:complexType>\<newline>\<newline>''\<close>
    using assms(3,4) by (simp add: table_type_definition_def table_attribute_def)
  have d: "define_complex_type st entry xsdString = xsdString @ table_type_definition entry"
    using c assms(2) by (rule define_complex_type_table)
  have e: "\<exists>before after. emit_xsd st = before @ table_type_definition entry @ after"
    using c assms(2) by (rule emitted_type_definition)
  have f: "distinct (attributes (snd entry))"
    using maps_consistent_distinct[OF c assms(2)] by simp
  have g: \<open>declare_global_element st (fst entry) xsdString =
       xsdString @ ''  <xs:element name="'' @ fst entry @ ''" type="tns:'' @ fst entry @
         ''Type"/>\<newline>''\<close>
    using declare_global_element_table[OF maps_consistent_lookup[OF c assms(2)], of xsdString]
      assms(3)
    by (simp add: table_global_element_def)
  show ?thesis
    by (rule exI[of _ "table_type_definition entry"]) (intro conjI t d e f g)
qed

text \<open>The self-closing \<^verbatim>\<open>config\<close> element with one attribute.\<close>

theorem empty_tag_empty_content_witness:
  \<open>(''config'', \<lparr>attributes = [''active''], children = [], hasTextContent = False\<rparr>)
     \<in> set (elementInfo (processNode config_document None empty_state)) \<and>
   define_complex_type (processNode config_document None empty_state)
     (''config'', \<lparr>attributes = [''active''], children = [], hasTextContent = False\<rparr>) [] =
     ''  <xs:complexType name="configType">\<newline>'' @
     ''    <xs:sequence minOccurs="0"/>\<newline>'' @
     ''    <xs:attribute name="active" type="xs:string" use="optional"/>\<newline>'' @
     ''  </xs:complexType>\<newline>\<newline>''\<close>
proof -
  let ?st = "processNode config_document None empty_state"
  let ?entry = "(''config'', \<lparr>attributes = [''active''], children = [], hasTextContent = False\<rparr>)"
  have m: "?entry \<in> set (elementInfo ?st)"
    by (simp add: config_document_analysis)
  from empty_tag_empty_content[OF refl m, of "[]"] m show ?thesis
    by simp
qed

section \<open>The schema document\<close>

text \<open>
  Claim C9. When the parser reports no error and the document has a root, \<^verbatim>\<open>generateXsd\<close>
  returns, with the console untouched, exactly this text: the XML declaration line; the
  opening tag of \<^verbatim>\<open>xs:schema\<close> with \<^verbatim>\<open>xmlns:xs\<close> bound to the XML Schema namespace,
  \<^verbatim>\<open>targetNamespace\<close> and \<^verbatim>\<open>xmlns:tns\<close> bound to the placeholder
  \<^verbatim>\<open>http://example.com/generatedSchema\<close>, and \<^verbatim>\<open>elementFormDefault="qualified"\<close>; a comment
  line; the global element of every tag, the tags in order of first encounter in the
  document; an empty line and a comment line; the type definitions of the tags that have
  one, in the same order; the closing tag. Every global element is of type
  \<^verbatim>\<open>xs:string\<close> or of the type named by the tag followed by \<^verbatim>\<open>Type\<close>, and every type
  definition has that name.
\<close>

theorem generateXsd_document_structure:
  assumes "querySelector_parsererror (parseFromString xmlString) = None"
    and "documentElement (parseFromString xmlString) = Some rootElement"
    and "entries = elementInfo (processNode rootElement None empty_state)"
  shows \<open>generateXsd parseFromString xmlString console =
     (console, Inr (
        ''<?xml version="1.0" encoding="UTF-8"?>\<newline>'' @
        ''<xs:schema xmlns:xs="http://www.w3.org/2001/XMLSchema"\<newline>'' @
        ''           targetNamespace="http://example.com/generatedSchema"\<newline>'' @
        ''           xmlns:tns="http://example.com/generatedSchema"\<newline>'' @
        ''           elementFormDefault="qualified">\<newline>\<newline>'' @
        ''  <!-- Global Element Declarations -->\<newline>'' @
        concat (map table_global_element entries) @
        ''\<newline>'' @
        ''  <!-- Complex Type Definitions -->\<newline>'' @
        concat (map table_type_definition entries) @
        ''</xs:schema>\<newline>'')) \<and>
   map fst entries = first_encounter (tag_names rootElement) \<and>
   (\<forall>entry \<in> set entries.
      (table_global_element entry =
         ''  <xs:element name="'' @ fst entry @ ''" type="xs:string"/>\<newline>'' \<or>
       table_global_element entry =
         ''  <xs:element name="'' @ fst entry @ ''" type="tns:'' @ fst entry @ ''Type"/>\<newline>'') \<and>
      (table_type_definition entry = [] \<or>
       (\<exists>body. table_type_definition entry =
          ''  <xs:complexType name="'' @ fst entry @ ''Type"'' @ body @
          ''  </xs:complexType>\<newline>\<newline>'')))\<close>
proof -
  let ?st = "processNode rootElement None empty_state"
  have c: "maps_consistent ?st"
    by (rule maps_consistent_analysis)
  have 1: \<open>generateXsd parseFromString xmlString console =
     (console, Inr (
        ''<?xml version="1.0" encoding="UTF-8"?>\<newline>'' @
        ''<xs:schema xmlns:xs="http://www.w3.org/2001/XMLSchema"\<newline>'' @
        ''           targetNamespace="http://example.com/generatedSchema"\<newline>'' @
        ''           xmlns:tns="http://example.com/generatedSchema"\<newline>'' @
        ''           elementFormDefault="qualified">\<newline>\<newline>'' @
        ''  <!-- Global Element Declarations -->\<newline>'' @
        concat (map table_global_element entries) @
        ''\<newline>'' @
        ''  <!-- Complex Type Definitions -->\<newline>'' @
        concat (map table_type_definition entries) @
        ''</xs:schema>\<newline>''))\<close>
    using assms by (simp add: generateXsd_def emit_xsd_table[OF c] xsd_preamble_def)
  have 2: "map fst entries = first_encounter (tag_names rootElement)"
    using assms(3) by (simp add: keys_first_encounter)
  have 3: \<open>\<forall>entry \<in> set entries.
      (table_global_element entry =
         ''  <xs:element name="'' @ fst entry @ ''" type="xs:string"/>\<newline>'' \<or>
       table_global_element entry =
         ''  <xs:element name="'' @ fst entry @ ''" type="tns:'' @ fst entry @ ''Type"/>\<newline>'') \<and>
      (table_type_definition entry = [] \<or>
       (\<exists>body. table_type_definition entry =
          ''  <xs:complexType name="'' @ fst entry @ ''Type"'' @ body @
          ''  </xs:complexType>\<newline>\<newline>''))\<close>
  proof
    fix entry
    assume "entry \<in> set entries"
    have g: \<open>table_global_element entry =
         ''  <xs:element name="'' @ fst entry @ ''" type="xs:string"/>\<newline>'' \<or>
       table_global_element entry =
         ''  <xs:element name="'' @ fst entry @ ''" type="tns:'' @ fst entry @ ''Type"/>\<newline>''\<close>
      by (simp add: table_global_element_def)
    have t: \<open>table_type_definition entry = [] \<or>
       (\<exists>body. table_type_definition entry =
          ''  <xs:complexType name="'' @ fst entry @ ''Type"'' @ body @
          ''  </xs:complexType>\<newline>\<newline>'')\<close>
    proof (cases "children (snd entry) \<noteq> []")
      case True
      have \<open>table_type_definition entry =
          ''  <xs:complexType name="'' @ fst entry @ ''Type"'' @
          ((if hasTextContent (snd entry) then '' mixed="true"'' else []) @ ''>\<newline>'' @
           ''    <xs:sequence>\<newline>'' @
           concat (map table_child_reference (children (snd entry))) @
           ''    </xs:sequence>\<newline>'' @
           concat (map (\<lambda>a. ''    '' @ table_attribute a) (attributes (snd entry)))) @
          ''  </xs:complexType>\<newline>\<newline>''\<close>
        using True by (simp add: table_type_definition_def)
      then show ?thesis by blast
    next
      case False
      show ?thesis
      proof (cases "hasTextContent (snd entry)")
        case h: False
        have \<open>table_type_definition entry =
          ''  <xs:complexType name="'' @ fst entry @ ''Type"'' @
          (''>\<newline>'' @ ''    <xs:sequence minOccurs="0"/>\<newline>'' @
           concat (map (\<lambda>a. ''    '' @ table_attribute a) (attributes (snd entry)))) @
          ''  </xs:complexType>\<newline>\<newline>''\<close>
          using False h by (simp add: table_type_definition_def)
        then show ?thesis by blast
      next
        case h: True
        show ?thesis
        proof (cases "attributes (snd entry) = []")
          case True
          with False h show ?thesis by (simp add: table_type_definition_def)
        next
          case a: False
          have \<open>table_type_definition entry =
            ''  <xs:complexType name="'' @ fst entry @ ''Type"'' @
            (''>\<newline>'' @ ''    <xs:simpleContent>\<newline>'' @
             ''      <xs:extension base="xs:string">\<newline>'' @
             concat (map (\<lambda>a. ''        '' @ table_attribute a) (attributes (snd entry))) @
             ''      </xs:extension>\<newline>'' @
             ''    </xs:simpleContent>\<newline>'') @
            ''  </xs:complexType>\<newline>\<newline>''\<close>
            using False h a by (simp add: table_type_definition_def)
          then show ?thesis by blast
        qed
      qed
    qed
    from g t show \<open>(table_global_element entry =
         ''  <xs:element name="'' @ fst entry @ ''" type="xs:string"/>\<newline>'' \<or>
       table_global_element entry =
         ''  <xs:element name="'' @ fst entry @ ''" type="tns:'' @ fst entry @ ''Type"/>\<newline>'') \<and>
      (table_type_definition entry = [] \<or>
       (\<exists>body. table_type_definition entry =
          ''  <xs:complexType name="'' @ fst entry @ ''Type"'' @ body @
          ''  </xs:complexType>\<newline>\<newline>''))\<close>
      by (rule conjI)
  qed
  show ?thesis
    by (intro conjI 1 2 3)
qed

text \<open>The whole schema of \<^verbatim>\<open><root><item>Data</item></root>\<close>.\<close>

theorem generateXsd_document_structure_witness:
  \<open>generateXsd (\<lambda>xmlString. \<lparr>querySelector_parsererror = None,
                                documentElement = Some item_document\<rparr>)
     ''<root><item>Data</item></root>'' [] =
   ([], Inr (
      ''<?xml version="1.0" encoding="UTF-8"?>\<newline>'' @
      ''<xs:schema xmlns:xs="http://www.w3.org/2001/XMLSchema"\<newline>'' @
      ''           targetNamespace="http://example.com/generatedSchema"\<newline>'' @
      ''           xmlns:tns="http://example.com/generatedSchema"\<newline>'' @
      ''           elementFormDefault="qualified">\<newline>\<newline>'' @
      ''  <!-- Global Element Declarations -->\<newline>'' @
      ''  <xs:element name="root" type="tns:rootType"/>\<newline>'' @
      ''  <xs:element name="item" type="xs:string"/>\<newline>'' @
      ''\<newline>'' @
      ''  <!-- Complex Type Definitions -->\<newline>'' @
      ''  <xs:complexType name="rootType">\<newline>'' @
      ''    <xs:sequence>\<newline>'' @
      ''      <xs:element ref="tns:item" minOccurs="0" maxOccurs="unbounded"/>\<newline>'' @
      ''    </xs:sequence>\<newline>'' @
      ''  </xs:complexType>\<newline>\<newline>'' @
      ''</xs:schema>\<newline>''))\<close>
proof -
  let ?p = "\<lambda>xmlString::string. \<lparr>querySelector_parsererror = None,
                                documentElement = Some item_document\<rparr>"
  let ?x = "''<root><item>Data</item></root>''"
  have a: "querySelector_parsererror (?p ?x) = None"
    by simp
  have b: "documentElement (?p ?x) = Some item_document"
    by simp
  have t: "concat (map table_type_definition
             (elementInfo (processNode item_document None empty_state))) =
           table_type_definition
             (''root'', \<lparr>attributes = [], children = [''item''], hasTextContent = False\<rparr>)"
    by (simp add: item_document_analysis table_type_definition_def)
  have g: "concat (map table_global_element
             (elementInfo (processNode item_document None empty_state))) =
           table_global_element
             (''root'', \<lparr>attributes = [], children = [''item''], hasTextContent = False\<rparr>) @
           table_global_element
             (''item'', \<lparr>attributes = [], children = [], hasTextContent = True\<rparr>)"
    by (simp add: item_document_analysis)
  from generateXsd_document_structure[of ?p ?x item_document _ "[]", OF a b refl]
  have \<open>generateXsd ?p ?x [] =
     ([], Inr (
        ''<?xml version="1.0" encoding="UTF-8"?>\<newline>'' @
        ''<xs:schema xmlns:xs="http://www.w3.org/2001/XMLSchema"\<newline>'' @
        ''           targetNamespace="http://example.com/generatedSchema"\<newline>'' @
        ''           xmlns:tns="http://example.com/generatedSchema"\<newline>'' @
        ''           elementFormDefault="qualified">\<newline>\<newline>'' @
        ''  <!-- Global Element Declarations -->\<newline>'' @
        concat (map table_global_element
                  (elementInfo (processNode item_document None empty_state))) @
        ''\<newline>'' @
        ''  <!-- Complex Type Definitions -->\<newline>'' @
        concat (map table_type_definition
                  (elementInfo (processNode item_document None empty_state))) @
        ''</xs:schema>\<newline>''))\<close>
    by (rule conjunct1)
  then show ?thesis
    unfolding t g
    by (simp add: table_type_definition_def table_global_element_def table_child_reference_def)
qed

section \<open>The invariant of the order arrays\<close>

lemma childOrder_invariant_iff:
  "childOrder_invariant st \<longleftrightarrow>
     (\<forall>entry \<in> set (elementOrder st).
        \<exists>info. map_of (elementInfo st) (fst entry) = Some info \<and>
               set (snd entry) \<subseteq> set (children info) \<and> distinct (snd entry))"
  unfolding childOrder_invariant_def
  by (intro ball_cong refl) (simp split: option.splits)

lemma set_map_entry_first:
  "e \<in> set (AList.map_entry k f xs) \<Longrightarrow>
   e \<in> set xs \<or> (\<exists>v. map_of xs k = Some v \<and> e = (k, f v))"
  by (induction xs) (auto split: if_splits)

lemma childOrder_invariant_empty: "childOrder_invariant empty_state"
  by (simp add: childOrder_invariant_def empty_state_def)

lemma childOrder_invariant_set_elementInfo:
  assumes "childOrder_invariant st" and "\<not> map_has (elementInfo st) n"
  shows "childOrder_invariant (set_elementInfo n st)"
  unfolding childOrder_invariant_iff
proof
  fix entry
  assume e: "entry \<in> set (elementOrder (set_elementInfo n st))"
  then have "entry \<in> set (elementOrder st)"
    by (simp add: set_elementInfo_def)
  with assms(1) obtain info where i: "map_of (elementInfo st) (fst entry) = Some info"
    and s: "set (snd entry) \<subseteq> set (children info) \<and> distinct (snd entry)"
    unfolding childOrder_invariant_iff by blast
  from i assms(2) have "fst entry \<noteq> n"
    by (auto simp: map_has_def)
  with i have "map_of (elementInfo (set_elementInfo n st)) (fst entry) = Some info"
    by (simp add: set_elementInfo_def update_conv')
  with s show "\<exists>info. map_of (elementInfo (set_elementInfo n st)) (fst entry) = Some info \<and>
               set (snd entry) \<subseteq> set (children info) \<and> distinct (snd entry)"
    by blast
qed

lemma childOrder_invariant_set_elementOrder:
  assumes "childOrder_invariant st" and "map_has (elementInfo st) n"
  shows "childOrder_invariant (set_elementOrder n st)"
  unfolding childOrder_invariant_iff
proof
  fix entry
  assume "entry \<in> set (elementOrder (set_elementOrder n st))"
  then have "entry \<in> set (elementOrder st) \<or> entry = (n, [])"
    by (auto simp: set_elementOrder_def dest: set_update)
  then show "\<exists>info. map_of (elementInfo (set_elementOrder n st)) (fst entry) = Some info \<and>
               set (snd entry) \<subseteq> set (children info) \<and> distinct (snd entry)"
  proof
    assume "entry \<in> set (elementOrder st)"
    with assms(1) show ?thesis
      unfolding childOrder_invariant_iff by (simp add: set_elementOrder_def)
  next
    assume "entry = (n, [])"
    with assms(2) show ?thesis
      by (auto simp: set_elementOrder_def map_has_def)
  qed
qed

lemma childOrder_invariant_map_entry:
  assumes "childOrder_invariant st"
    and "\<And>info. set (children info) \<subseteq> set (children (f info))"
  shows "childOrder_invariant (st\<lparr>elementInfo := AList.map_entry n f (elementInfo st)\<rparr>)"
  unfolding childOrder_invariant_iff
proof
  fix entry
  assume "entry \<in> set (elementOrder (st\<lparr>elementInfo := AList.map_entry n f (elementInfo st)\<rparr>))"
  then have "entry \<in> set (elementOrder st)"
    by simp
  with assms(1) obtain info where i: "map_of (elementInfo st) (fst entry) = Some info"
    and s: "set (snd entry) \<subseteq> set (children info)" and d: "distinct (snd entry)"
    unfolding childOrder_invariant_iff by blast
  show "\<exists>info. map_of (elementInfo (st\<lparr>elementInfo := AList.map_entry n f (elementInfo st)\<rparr>))
                  (fst entry) = Some info \<and>
               set (snd entry) \<subseteq> set (children info) \<and> distinct (snd entry)"
  proof (cases "fst entry = n")
    case True
    with i have "map_of (AList.map_entry n f (elementInfo st)) (fst entry) = Some (f info)"
      by (simp add: map_of_map_entry)
    moreover from s assms(2)[of info] have "set (snd entry) \<subseteq> set (children (f info))"
      by blast
    ultimately show ?thesis using d by simp
  next
    case False
    with i have "map_of (AList.map_entry n f (elementInfo st)) (fst entry) = Some info"
      by (simp add: map_of_map_entry)
    with s d show ?thesis by simp
  qed
qed

lemma childOrder_invariant_add_attribute:
  "childOrder_invariant st \<Longrightarrow> childOrder_invariant (add_attribute n a st)"
  unfolding add_attribute_def by (rule childOrder_invariant_map_entry) simp_all

lemma childOrder_invariant_add_child:
  "childOrder_invariant st \<Longrightarrow> childOrder_invariant (add_child n c st)"
  unfolding add_child_def by (rule childOrder_invariant_map_entry) (auto simp: set_set_add)

lemma childOrder_invariant_set_hasTextContent:
  "childOrder_invariant st \<Longrightarrow> childOrder_invariant (set_hasTextContent n st)"
  unfolding set_hasTextContent_def by (rule childOrder_invariant_map_entry) simp_all

lemma childOrder_invariant_push_order:
  assumes "childOrder_invariant st"
    and "c \<notin> set (get_order st n)"
    and "\<And>info. map_of (elementInfo st) n = Some info \<Longrightarrow> c \<in> set (children info)"
  shows "childOrder_invariant (push_order n c st)"
  unfolding childOrder_invariant_iff
proof
  fix entry
  assume "entry \<in> set (elementOrder (push_order n c st))"
  then have "entry \<in> set (elementOrder st) \<or>
             (\<exists>v. map_of (elementOrder st) n = Some v \<and> entry = (n, v @ [c]))"
    by (auto simp: push_order_def dest: set_map_entry_first)
  then show "\<exists>info. map_of (elementInfo (push_order n c st)) (fst entry) = Some info \<and>
               set (snd entry) \<subseteq> set (children info) \<and> distinct (snd entry)"
  proof
    assume "entry \<in> set (elementOrder st)"
    with assms(1) show ?thesis
      unfolding childOrder_invariant_iff by (simp add: push_order_def)
  next
    assume "\<exists>v. map_of (elementOrder st) n = Some v \<and> entry = (n, v @ [c])"
    then obtain v where v: "map_of (elementOrder st) n = Some v" and e: "entry = (n, v @ [c])"
      by blast
    from v have "(n, v) \<in> set (elementOrder st)"
      by (rule map_of_SomeD)
    with assms(1) obtain info where i: "map_of (elementInfo st) n = Some info"
      and s: "set v \<subseteq> set (children info)" and d: "distinct v"
      unfolding childOrder_invariant_iff by fastforce
    from v assms(2) have "c \<notin> set v"
      by (simp add: get_order_def)
    with i s d assms(3)[OF i] e show ?thesis
      by (simp add: push_order_def)
  qed
qed

lemma childOrder_invariant_ensure_record_trace:
  assumes "childOrder_invariant st"
  shows "(\<forall>s \<in> set (ensure_record_trace n st). childOrder_invariant s) \<and>
         childOrder_invariant (ensure_record n st)"
proof (cases "map_has (elementInfo st) n")
  case True
  with assms show ?thesis
    by (simp add: ensure_record_trace_def ensure_record_def)
next
  case False
  have 1: "childOrder_invariant (set_elementInfo n st)"
    using assms False by (rule childOrder_invariant_set_elementInfo)
  have "map_has (elementInfo (set_elementInfo n st)) n"
    by (simp add: set_elementInfo_def map_has_def update_conv')
  with 1 have "childOrder_invariant (set_elementOrder n (set_elementInfo n st))"
    by (rule childOrder_invariant_set_elementOrder)
  with 1 False show ?thesis
    by (simp add: ensure_record_trace_def ensure_record_def)
qed

lemma childOrder_invariant_add_attributes_trace:
  "childOrder_invariant st \<Longrightarrow>
   (\<forall>s \<in> set (add_attributes_trace n attrs st). childOrder_invariant s) \<and>
   childOrder_invariant (add_attributes n attrs st)"
proof (induction attrs arbitrary: st)
  case Nil
  then show ?case by (simp add: add_attributes_def)
next
  case (Cons a attrs)
  from Cons.prems have "childOrder_invariant (add_attribute n (fst a) st)"
    by (rule childOrder_invariant_add_attribute)
  with Cons.IH[of "add_attribute n (fst a) st"] show ?case
    by (simp add: add_attributes_def)
qed

lemma childOrder_invariant_capture_order_trace:
  assumes "childOrder_invariant st"
    and "\<And>info. map_of (elementInfo st) n = Some info \<Longrightarrow> c \<in> set (children info)"
  shows "(\<forall>s \<in> set (capture_order_trace n c processed st). childOrder_invariant s) \<and>
         childOrder_invariant (fst (capture_order n c processed st))"
proof (cases "c \<in> set (get_order st n)")
  case True
  then have "get_order st n \<noteq> []" by auto
  with True assms(1) show ?thesis
    by (simp add: capture_order_trace_def capture_order_def)
next
  case False
  then have "childOrder_invariant (push_order n c st)"
    using assms by (intro childOrder_invariant_push_order)
  with False show ?thesis
    by (simp add: capture_order_trace_def capture_order_def)
qed

lemma add_child_member:
  "map_of (elementInfo (add_child n c st)) n = Some info \<Longrightarrow> c \<in> set (children info)"
  by (auto simp: add_child_def map_of_map_entry set_set_add split: option.splits)

lemma childOrder_invariant_processNode_trace:
  "childOrder_invariant st \<Longrightarrow>
   (\<forall>s \<in> set (processNode_trace node parentName st). childOrder_invariant s) \<and>
   childOrder_invariant (processNode node parentName st)"
  and childOrder_invariant_forEach_childNodes_trace:
  "childOrder_invariant st \<Longrightarrow>
   (\<forall>s \<in> set (forEach_childNodes_trace n nodes processed st). childOrder_invariant s) \<and>
   childOrder_invariant (forEach_childNodes n nodes processed st)"
proof (induction node parentName st and n nodes processed st
       rule: processNode_forEach_childNodes.induct)
  case (1 nodeValue parentName st)
  then show ?case
    by (simp add: childOrder_invariant_set_hasTextContent split: option.splits)
next
  case (2 parentName st)
  then show ?case by simp
next
  case (3 elementName attrs childNodes parentName st)
  from childOrder_invariant_ensure_record_trace[OF "3.prems", of elementName]
  have a: "\<forall>s \<in> set (ensure_record_trace elementName st). childOrder_invariant s"
    and b: "childOrder_invariant (ensure_record elementName st)"
    by blast+
  from childOrder_invariant_add_attributes_trace[OF b, of elementName attrs]
  have c: "\<forall>s \<in> set (add_attributes_trace elementName attrs (ensure_record elementName st)).
             childOrder_invariant s"
    and d: "childOrder_invariant (add_attributes elementName attrs (ensure_record elementName st))"
    by blast+
  from "3.IH"[OF d] a c show ?case
    by auto
next
  case (4 elementName processed st)
  then show ?case by simp
next
  case (5 elementName childName attrs childNodes rest processed st)
  let ?s1 = "add_child elementName childName st"
  let ?s2 = "fst (capture_order elementName childName processed ?s1)"
  let ?s3 = "processNode (Element childName attrs childNodes) (Some elementName) ?s2"
  have a: "childOrder_invariant ?s1"
    using "5.prems" by (rule childOrder_invariant_add_child)
  have "(\<forall>s \<in> set (capture_order_trace elementName childName processed ?s1).
             childOrder_invariant s) \<and> childOrder_invariant ?s2"
    using a by (rule childOrder_invariant_capture_order_trace) (rule add_child_member)
  then have b: "\<forall>s \<in> set (capture_order_trace elementName childName processed ?s1).
             childOrder_invariant s"
    and c: "childOrder_invariant ?s2"
    by blast+
  from "5.IH"(1)[OF c]
  have d: "\<forall>s \<in> set (processNode_trace (Element childName attrs childNodes)
                         (Some elementName) ?s2). childOrder_invariant s"
    and e: "childOrder_invariant ?s3"
    by blast+
  from "5.IH"(2)[OF e]
  have f: "\<forall>s \<in> set (forEach_childNodes_trace elementName rest
                         (snd (capture_order elementName childName processed ?s1)) ?s3).
             childOrder_invariant s"
    and g: "childOrder_invariant (forEach_childNodes elementName rest
              (snd (capture_order elementName childName processed ?s1)) ?s3)"
    by blast+
  have "\<forall>s \<in> set (forEach_childNodes_trace elementName
                      (Element childName attrs childNodes # rest) processed st).
          childOrder_invariant s"
    unfolding forEach_childNodes_trace.simps set_simps set_append
    using a b d f by blast
  moreover have "childOrder_invariant (forEach_childNodes elementName
                      (Element childName attrs childNodes # rest) processed st)"
    unfolding forEach_childNodes.simps by (rule g)
  ultimately show ?case ..
next
  case (6 elementName nodeValue rest processed st)
  show ?case
  proof (cases "trim nodeValue \<noteq> []")
    case True
    from "6.prems" have "childOrder_invariant (set_hasTextContent elementName st)"
      by (rule childOrder_invariant_set_hasTextContent)
    with "6.IH" True show ?thesis by simp
  next
    case False
    with "6.IH" "6.prems" show ?thesis by simp
  qed
next
  case (7 elementName rest processed st)
  then show ?case by simp
qed

subsection \<open>The mutations end in the state the traversal returns\<close>

lemma last_trace_append: "last (a # xs @ ys) = last (last (a # xs) # ys)"
  by (cases ys) simp_all

lemma ensure_record_trace_last: "last (st # ensure_record_trace n st) = ensure_record n st"
  by (simp add: ensure_record_trace_def ensure_record_def)

lemma add_attributes_trace_last:
  "last (st # add_attributes_trace n attrs st) = add_attributes n attrs st"
  by (induction attrs arbitrary: st) (simp_all add: add_attributes_def)

lemma capture_order_trace_last:
  "last (st # capture_order_trace n c processed st) = fst (capture_order n c processed st)"
  by (simp add: capture_order_trace_def capture_order_def)

lemma processNode_trace_last:
  "last (st # processNode_trace node parentName st) = processNode node parentName st"
  and forEach_childNodes_trace_last:
  "last (st # forEach_childNodes_trace n nodes processed st) =
     forEach_childNodes n nodes processed st"
proof (induction node parentName st and n nodes processed st
       rule: processNode_forEach_childNodes.induct)
  case (1 nodeValue parentName st)
  then show ?case by (simp split: option.splits)
next
  case (2 parentName st)
  then show ?case by simp
next
  case (3 elementName attrs childNodes parentName st)
  have "last (st # processNode_trace (Element elementName attrs childNodes) parentName st) =
        last (last (last (st # ensure_record_trace elementName st) #
                      add_attributes_trace elementName attrs (ensure_record elementName st)) #
                forEach_childNodes_trace elementName childNodes []
                  (add_attributes elementName attrs (ensure_record elementName st)))"
    by (simp only: processNode_trace.simps last_trace_append append_assoc[symmetric])
  also have "\<dots> = last (add_attributes elementName attrs (ensure_record elementName st) #
                forEach_childNodes_trace elementName childNodes []
                  (add_attributes elementName attrs (ensure_record elementName st)))"
    by (simp only: ensure_record_trace_last add_attributes_trace_last)
  also have "\<dots> = forEach_childNodes elementName childNodes []
                  (add_attributes elementName attrs (ensure_record elementName st))"
    by (rule "3.IH")
  finally show ?case
    by (simp only: processNode.simps)
next
  case (4 elementName processed st)
  then show ?case by simp
next
  case (5 elementName childName attrs childNodes rest processed st)
  let ?s1 = "add_child elementName childName st"
  let ?s2 = "fst (capture_order elementName childName processed ?s1)"
  let ?s3 = "processNode (Element childName attrs childNodes) (Some elementName) ?s2"
  let ?cp = "snd (capture_order elementName childName processed ?s1)"
  have "last (st # forEach_childNodes_trace elementName
                (Element childName attrs childNodes # rest) processed st) =
        last (?s1 # capture_order_trace elementName childName processed ?s1 @
                (processNode_trace (Element childName attrs childNodes) (Some elementName) ?s2 @
                 forEach_childNodes_trace elementName rest ?cp ?s3))"
    by (simp del: processNode.simps processNode_trace.simps)
  also have "\<dots> = last (?s2 #
                (processNode_trace (Element childName attrs childNodes) (Some elementName) ?s2 @
                 forEach_childNodes_trace elementName rest ?cp ?s3))"
    by (simp only: last_trace_append[of ?s1] capture_order_trace_last)
  also have "\<dots> = last (?s3 # forEach_childNodes_trace elementName rest ?cp ?s3)"
    by (simp only: last_trace_append[of ?s2] "5.IH"(1))
  also have "\<dots> = forEach_childNodes elementName rest ?cp ?s3"
    by (rule "5.IH"(2))
  finally show ?case
    by (simp del: processNode.simps)
next
  case (6 elementName nodeValue rest processed st)
  show ?case
  proof (cases "trim nodeValue \<noteq> []")
    case True
    with "6.IH" show ?thesis by simp
  next
    case False
    with "6.IH" show ?thesis by simp
  qed
next
  case (7 elementName rest processed st)
  then show ?case by simp
qed

subsection \<open>The invariant along the traversal\<close>

lemma childOrder_invariant_lookup:
  assumes "childOrder_invariant st"
    and "map_of (elementInfo st) tag = Some info"
    and "map_of (elementOrder st) tag = Some order"
  shows "set order \<subseteq> set (children info) \<and> distinct order"
proof -
  from assms(3) have "(tag, order) \<in> set (elementOrder st)"
    by (rule map_of_SomeD)
  with assms(1) obtain info' where "map_of (elementInfo st) tag = Some info'"
    and "set order \<subseteq> set (children info') \<and> distinct order"
    unfolding childOrder_invariant_iff by fastforce
  with assms(2) show ?thesis by simp
qed

text \<open>
  Claim C8. In the empty maps, after every single mutation of the traversal of a document,
  and in the maps the traversal returns to the emitter, the order array of every tag
  holds only names of the set of children of the record of that tag, and holds no name
  twice.
\<close>

theorem childOrder_invariant_traversal:
  "(\<forall>s \<in> set (empty_state # processNode_trace rootElement None empty_state).
      childOrder_invariant s \<and>
      (\<forall>tag info order.
         map_of (elementInfo s) tag = Some info \<and> map_of (elementOrder s) tag = Some order
         \<longrightarrow> set order \<subseteq> set (children info) \<and> distinct order)) \<and>
   last (empty_state # processNode_trace rootElement None empty_state) =
     processNode rootElement None empty_state \<and>
   childOrder_invariant (processNode rootElement None empty_state) \<and>
   (\<forall>tag info order.
      map_of (elementInfo (processNode rootElement None empty_state)) tag = Some info \<and>
      map_of (elementOrder (processNode rootElement None empty_state)) tag = Some order
      \<longrightarrow> set order \<subseteq> set (children info) \<and> distinct order)"
proof -
  from childOrder_invariant_processNode_trace[OF childOrder_invariant_empty, of rootElement None]
  have t: "\<forall>s \<in> set (processNode_trace rootElement None empty_state). childOrder_invariant s"
    and f: "childOrder_invariant (processNode rootElement None empty_state)"
    by blast+
  from t have a: "\<forall>s \<in> set (empty_state # processNode_trace rootElement None empty_state).
      childOrder_invariant s \<and>
      (\<forall>tag info order.
         map_of (elementInfo s) tag = Some info \<and> map_of (elementOrder s) tag = Some order
         \<longrightarrow> set order \<subseteq> set (children info) \<and> distinct order)"
    using childOrder_invariant_empty childOrder_invariant_lookup by (metis set_ConsD)
  have b: "last (empty_state # processNode_trace rootElement None empty_state) =
     processNode rootElement None empty_state"
    by (rule processNode_trace_last)
  have c: "\<forall>tag info order.
      map_of (elementInfo (processNode rootElement None empty_state)) tag = Some info \<and>
      map_of (elementOrder (processNode rootElement None empty_state)) tag = Some order
      \<longrightarrow> set order \<subseteq> set (children info) \<and> distinct order"
    using f childOrder_invariant_lookup by blast
  show ?thesis
    by (intro conjI a b f c)
qed

text \<open>
  The maps right after the first push to the order array of \<^verbatim>\<open>list\<close>, in the traversal of
  the list with two \<^verbatim>\<open>value\<close> children.
\<close>

theorem childOrder_invariant_traversal_witness:
  "\<lparr>elementInfo =
      [(''list'', \<lparr>attributes = [], children = [''value''], hasTextContent = False\<rparr>)],
    elementOrder = [(''list'', [''value''])]\<rparr>
     \<in> set (empty_state # processNode_trace list_document None empty_state) \<and>
   childOrder_invariant
     \<lparr>elementInfo =
        [(''list'', \<lparr>attributes = [], children = [''value''], hasTextContent = False\<rparr>)],
      elementOrder = [(''list'', [''value''])]\<rparr>"
proof -
  let ?s = "\<lparr>elementInfo =
      [(''list'', \<lparr>attributes = [], children = [''value''], hasTextContent = False\<rparr>)],
    elementOrder = [(''list'', [''value''])]\<rparr>"
  have m: "?s \<in> set (empty_state # processNode_trace list_document None empty_state)"
    by (simp add: list_document_def analyzer_defs ensure_record_trace_def
        capture_order_trace_def)
  from childOrder_invariant_traversal[of list_document]
  have "\<forall>s \<in> set (empty_state # processNode_trace list_document None empty_state).
          childOrder_invariant s"
    by blast
  with m show ?thesis
    by blast
qed

section \<open>The outcome is a function of the document\<close>

lemma has_text_of_empty: "has_text_of empty_state tag = False"
  by (simp add: has_text_of_def empty_state_def)

lemma has_text_of_ensure_record: "has_text_of (ensure_record n st) tag = has_text_of st tag"
  by (auto simp: has_text_of_def ensure_record_def set_elementInfo_def set_elementOrder_def
      map_has_def update_conv')

lemma has_text_of_add_attribute: "has_text_of (add_attribute n a st) tag = has_text_of st tag"
  by (auto simp: has_text_of_def add_attribute_def map_of_map_entry split: option.splits)

lemma has_text_of_add_attributes: "has_text_of (add_attributes n attrs st) tag = has_text_of st tag"
  unfolding add_attributes_def
  by (induction attrs arbitrary: st) (simp_all add: has_text_of_add_attribute)

lemma has_text_of_capture_order:
  "has_text_of (fst (capture_order n c processed (add_child n c st))) tag = has_text_of st tag"
  by (auto simp: has_text_of_def capture_order_add_child map_of_map_entry split: option.splits)

lemma has_text_of_set_hasTextContent:
  "map_has (elementInfo st) n \<Longrightarrow>
   has_text_of (set_hasTextContent n st) tag = (n = tag \<or> has_text_of st tag)"
  by (auto simp: has_text_of_def set_hasTextContent_def map_of_map_entry map_has_def
      split: option.splits)

lemma has_text_of_processNode:
  "has_text_of (processNode node parentName st) tag =
     (has_text_of st tag \<or> text_directly_in tag node \<or>
      (\<exists>nodeValue. node = Text nodeValue \<and> trim nodeValue \<noteq> [] \<and> parentName = Some tag \<and>
         tag \<noteq> [] \<and> map_has (elementInfo st) tag))"
  and has_text_of_forEach_childNodes:
  "map_has (elementInfo st) n \<Longrightarrow>
   has_text_of (forEach_childNodes n nodes processed st) tag =
     (has_text_of st tag \<or> text_directly_in tag (Element n [] nodes))"
proof (induction node parentName st and n nodes processed st
       rule: processNode_forEach_childNodes.induct)
  case (1 nodeValue parentName st)
  show ?case
  proof (cases parentName)
    case None
    then show ?thesis by simp
  next
    case (Some p)
    show ?thesis
    proof (cases "trim nodeValue \<noteq> [] \<and> p \<noteq> [] \<and> map_has (elementInfo st) p")
      case True
      with Some show ?thesis
        by (auto simp: has_text_of_set_hasTextContent)
    next
      case False
      with Some show ?thesis
        by auto
    qed
  qed
next
  case (2 parentName st)
  then show ?case by simp
next
  case (3 elementName attrs childNodes parentName st)
  have h: "map_has (elementInfo (add_attributes elementName attrs
             (ensure_record elementName st))) elementName"
    by (simp add: map_has_add_attributes map_has_ensure_record)
  from "3.IH"[OF h] show ?case
    by (simp add: has_text_of_add_attributes has_text_of_ensure_record)
next
  case (4 elementName processed st)
  then show ?case by simp
next
  case (5 elementName childName attrs childNodes rest processed st)
  let ?s = "fst (capture_order elementName childName processed
                   (add_child elementName childName st))"
  let ?child = "Element childName attrs childNodes"
  have h: "map_has (elementInfo (processNode ?child (Some elementName) ?s)) elementName"
    using "5.prems" by (simp add: map_has_processNode map_has_capture_order del: processNode.simps)
  have a: "has_text_of (processNode ?child (Some elementName) ?s) tag =
           (has_text_of st tag \<or> text_directly_in tag ?child)"
    using "5.IH"(1) by (simp add: has_text_of_capture_order del: processNode.simps
        text_directly_in.simps)
  have b: "has_text_of (forEach_childNodes elementName (?child # rest) processed st) tag =
           (has_text_of (processNode ?child (Some elementName) ?s) tag \<or>
            text_directly_in tag (Element elementName [] rest))"
    using "5.IH"(2)[OF h] by (simp del: processNode.simps text_directly_in.simps)
  have c: "text_directly_in tag (Element elementName [] (?child # rest)) =
           (text_directly_in tag ?child \<or> text_directly_in tag (Element elementName [] rest))"
    by auto
  show ?case
    unfolding b a c by blast
next
  case (6 elementName nodeValue rest processed st)
  show ?case
  proof (cases "trim nodeValue \<noteq> []")
    case True
    have h: "map_has (elementInfo (set_hasTextContent elementName st)) elementName"
      using "6.prems" by (simp add: map_has_set_hasTextContent)
    have "has_text_of (forEach_childNodes elementName (Text nodeValue # rest) processed st) tag =
          (has_text_of (set_hasTextContent elementName st) tag \<or>
           text_directly_in tag (Element elementName [] rest))"
      using "6.IH" True h by simp
    also have "\<dots> = ((elementName = tag \<or> has_text_of st tag) \<or>
           text_directly_in tag (Element elementName [] rest))"
      using "6.prems" by (simp only: has_text_of_set_hasTextContent)
    also have "\<dots> = (has_text_of st tag \<or>
           text_directly_in tag (Element elementName [] (Text nodeValue # rest)))"
      using True by auto
    finally show ?thesis .
  next
    case False
    have "has_text_of (forEach_childNodes elementName (Text nodeValue # rest) processed st) tag =
          (has_text_of st tag \<or> text_directly_in tag (Element elementName [] rest))"
      using "6.IH" False "6.prems" by simp
    also have "\<dots> = (has_text_of st tag \<or>
           text_directly_in tag (Element elementName [] (Text nodeValue # rest)))"
      using False by auto
    finally show ?thesis .
  qed
next
  case (7 elementName rest processed st)
  then show ?case by simp
qed

lemma hasTextContent_text_directly_in:
  assumes "entry \<in> set (elementInfo (processNode rootElement None empty_state))"
  shows "hasTextContent (snd entry) = text_directly_in (fst entry) rootElement"
proof -
  let ?st = "processNode rootElement None empty_state"
  have "maps_consistent ?st"
    by (rule maps_consistent_analysis)
  with assms have "map_of (elementInfo ?st) (fst entry) = Some (snd entry)"
    by (rule maps_consistent_lookup[rotated])
  then have "hasTextContent (snd entry) = has_text_of ?st (fst entry)"
    by (simp add: has_text_of_def)
  also have "\<dots> = text_directly_in (fst entry) rootElement"
    by (simp add: has_text_of_processNode has_text_of_empty)
  finally show ?thesis .
qed

lemma entries_from_keys:
  "(\<And>e. e \<in> set xs \<Longrightarrow> snd e = f (fst e)) \<Longrightarrow> xs = map (\<lambda>k. (k, f k)) (map fst xs)"
  by (induction xs) (auto simp: prod_eq_iff)

lemma analysis_records_of_document:
  "elementInfo (processNode rootElement None empty_state) = records_of_document rootElement"
proof -
  let ?E = "elementInfo (processNode rootElement None empty_state)"
  have "?E = map (\<lambda>tag. (tag, record_of_document rootElement tag)) (map fst ?E)"
  proof (rule entries_from_keys)
    fix e
    assume e: "e \<in> set ?E"
    show "snd e = record_of_document rootElement (fst e)"
      unfolding record_of_document_def
      using attributes_first_encounter[OF e] children_first_encounter[OF e]
        hasTextContent_text_directly_in[OF e]
      by (cases "snd e") simp
  qed
  then show ?thesis
    by (simp only: keys_first_encounter records_of_document_def)
qed

lemma emit_xsd_schema_of_document:
  "emit_xsd (processNode rootElement None empty_state) = schema_of_document rootElement"
  unfolding emit_xsd_table[OF maps_consistent_analysis] analysis_records_of_document
  by (simp add: schema_of_document_def xsd_preamble_def)

text \<open>
  Claim C7. A second run of \<^verbatim>\<open>generateXsd\<close> on the same input, started from the console
  the first run left, writes the same entries to the console and returns the same schema
  text or fails with the same error. The outcome is fixed by the parse result alone: the
  logged parse error with its message, the missing-root error, or the schema of the
  document, in which the tags, the children of a tag and the attributes of a tag stand in
  their order of first encounter in the document, whatever the maps and sets of the
  converter held on the way.
\<close>

theorem generateXsd_deterministic:
  "\<exists>written.
     fst (generateXsd parseFromString xmlString console) = console @ written \<and>
     fst (generateXsd parseFromString xmlString
            (fst (generateXsd parseFromString xmlString console))) =
       fst (generateXsd parseFromString xmlString console) @ written \<and>
     snd (generateXsd parseFromString xmlString
            (fst (generateXsd parseFromString xmlString console))) =
       snd (generateXsd parseFromString xmlString console) \<and>
     (\<forall>textContent.
        querySelector_parsererror (parseFromString xmlString) = Some textContent \<longrightarrow>
        written = [ConsoleError ''XML Parsing Error:'' textContent] \<and>
        snd (generateXsd parseFromString xmlString console) =
          Inl (Error (parse_error_message textContent))) \<and>
     (querySelector_parsererror (parseFromString xmlString) = None \<and>
      documentElement (parseFromString xmlString) = None \<longrightarrow>
        written = [] \<and>
        snd (generateXsd parseFromString xmlString console) =
          Inl (Error ''Invalid XML: No root element found.'')) \<and>
     (\<forall>rootElement.
        querySelector_parsererror (parseFromString xmlString) = None \<and>
        documentElement (parseFromString xmlString) = Some rootElement \<longrightarrow>
        written = [] \<and>
        snd (generateXsd parseFromString xmlString console) =
          Inr (schema_of_document rootElement))"
proof (cases "querySelector_parsererror (parseFromString xmlString)")
  case (Some textContent)
  then show ?thesis
    by (intro exI[of _ "[ConsoleError ''XML Parsing Error:'' textContent]"])
       (simp add: generateXsd_def)
next
  case None
  show ?thesis
  proof (cases "documentElement (parseFromString xmlString)")
    case n: None
    with None show ?thesis
      by (intro exI[of _ "[]"]) (simp add: generateXsd_def no_root_message_def)
  next
    case (Some rootElement)
    with None show ?thesis
      by (intro exI[of _ "[]"]) (simp add: generateXsd_def emit_xsd_schema_of_document)
  qed
qed

text \<open>Two runs on \<^verbatim>\<open><root><item>Data</item></root>\<close>: the second returns the schema of the document.\<close>

theorem generateXsd_deterministic_witness:
  \<open>snd (generateXsd
          (\<lambda>xmlString. \<lparr>querySelector_parsererror = None, documentElement = Some item_document\<rparr>)
          ''<root><item>Data</item></root>''
          (fst (generateXsd
                  (\<lambda>xmlString. \<lparr>querySelector_parsererror = None,
                                  documentElement = Some item_document\<rparr>)
                  ''<root><item>Data</item></root>'' []))) =
   Inr (
      ''<?xml version="1.0" encoding="UTF-8"?>\<newline>'' @
      ''<xs:schema xmlns:xs="http://www.w3.org/2001/XMLSchema"\<newline>'' @
      ''           targetNamespace="http://example.com/generatedSchema"\<newline>'' @
      ''           xmlns:tns="http://example.com/generatedSchema"\<newline>'' @
      ''           elementFormDefault="qualified">\<newline>\<newline>'' @
      ''  <!-- Global Element Declarations -->\<newline>'' @
      ''  <xs:element name="root" type="tns:rootType"/>\<newline>'' @
      ''  <xs:element name="item" type="xs:string"/>\<newline>'' @
      ''\<newline>'' @
      ''  <!-- Complex Type Definitions -->\<newline>'' @
      ''  <xs:complexType name="rootType">\<newline>'' @
      ''    <xs:sequence>\<newline>'' @
      ''      <xs:element ref="tns:item" minOccurs="0" maxOccurs="unbounded"/>\<newline>'' @
      ''    </xs:sequence>\<newline>'' @
      ''  </xs:complexType>\<newline>\<newline>'' @
      ''</xs:schema>\<newline>'')\<close>
proof -
  let ?p = "\<lambda>xmlString::string. \<lparr>querySelector_parsererror = None,
                                documentElement = Some item_document\<rparr>"
  let ?x = "''<root><item>Data</item></root>''"
  have r: "records_of_document item_document =
     [(''root'', \<lparr>attributes = [], children = [''item''], hasTextContent = False\<rparr>),
      (''item'', \<lparr>attributes = [], children = [], hasTextContent = True\<rparr>)]"
    by (simp add: records_of_document_def record_of_document_def item_document_def
        trim_def is_js_whitespace_def)
  from generateXsd_deterministic[of ?p ?x "[]"]
  obtain written where
    a: "snd (generateXsd ?p ?x (fst (generateXsd ?p ?x []))) = snd (generateXsd ?p ?x [])"
    and b: "\<forall>rootElement.
        querySelector_parsererror (?p ?x) = None \<and>
        documentElement (?p ?x) = Some rootElement \<longrightarrow>
        written = [] \<and> snd (generateXsd ?p ?x []) = Inr (schema_of_document rootElement)"
    by blast
  from b[rule_format, of item_document]
  have "snd (generateXsd ?p ?x []) = Inr (schema_of_document item_document)"
    by simp
  with a have "snd (generateXsd ?p ?x (fst (generateXsd ?p ?x []))) =
               Inr (schema_of_document item_document)"
    by (simp only:)
  then show ?thesis
    unfolding schema_of_document_def r
    by (simp add: table_type_definition_def table_global_element_def table_child_reference_def)
qed

end
